theory Spec2Isabelle
  imports Main
begin

section \<open>The filesystem seen by \<open>parallel_average.py\<close>\<close>

text \<open>
  The workers of \<open>lama/registration_pipeline/parallel_average.py\<close> share nothing but a
  filesystem, and every file they use is an existence-only marker or a volume whose
  content the coordination never reads.  A filesystem is therefore an association list
  from paths (lists of components, \<open>[]\<close> being the root directory) to the kind of the
  node.  Entries are only ever appended, and an entry is appended only for a path that
  has none, so \<open>map_of\<close> reads the node of a path.
\<close>

datatype node = File | Dir

type_synonym path = "string list"

type_synonym fs = "(path \<times> node) list"

datatype error =
    FileExistsError
  | FileNotFoundError
  | NotADirectoryError
  | IsADirectoryError
  | KeyError
  | IndexError
  | UnboundLocalError
  | RegistrationError
  | AverageError
  | OtherOSError

definition lookup :: "fs \<Rightarrow> path \<Rightarrow> node option" where
  "lookup fs p = (if p = [] then Some Dir else map_of fs p)"

definition is_file :: "fs \<Rightarrow> path \<Rightarrow> bool" where
  "is_file fs p = (lookup fs p = Some File)"

definition is_dir :: "fs \<Rightarrow> path \<Rightarrow> bool" where
  "is_dir fs p = (lookup fs p = Some Dir)"

definition present :: "fs \<Rightarrow> path \<Rightarrow> bool" where
  "present fs p = (lookup fs p \<noteq> None)"

text \<open>\<open>Path.iterdir()\<close>: the entries directly below a directory; it raises when the
  path is no directory.  The order of the result is whatever the list holds; no caller
  depends on it.\<close>

definition iterdir :: "fs \<Rightarrow> path \<Rightarrow> error + path list" where
  "iterdir fs d =
     (case lookup fs d of
        None \<Rightarrow> Inl FileNotFoundError
      | Some File \<Rightarrow> Inl NotADirectoryError
      | Some Dir \<Rightarrow> Inr (remdups (filter (\<lambda>p. p \<noteq> [] \<and> butlast p = d) (map fst fs))))"

text \<open>\<open>open(p, 'x')\<close>: atomic create-if-absent.  The first argument is an error the
  operating system may inject (permissions, quota, a broken mount); without one the
  call fails with \<open>FileExistsError\<close> exactly when the path already has a node.\<close>

definition open_x :: "error option \<Rightarrow> fs \<Rightarrow> path \<Rightarrow> error + fs" where
  "open_x fault fs p =
     (case fault of
        Some e \<Rightarrow> Inl e
      | None \<Rightarrow>
          if present fs p then Inl FileExistsError
          else if \<not> is_dir fs (butlast p) then Inl FileNotFoundError
          else Inr (fs @ [(p, File)]))"

text \<open>\<open>open(p, 'w')\<close> and \<open>sitk.WriteImage\<close>: create the file or overwrite it.\<close>

definition write_file :: "fs \<Rightarrow> path \<Rightarrow> error + fs" where
  "write_file fs p =
     (if \<not> is_dir fs (butlast p) then Inl FileNotFoundError
      else case lookup fs p of
             Some Dir \<Rightarrow> Inl IsADirectoryError
           | Some File \<Rightarrow> Inr fs
           | None \<Rightarrow> Inr (fs @ [(p, File)]))"

text \<open>\<open>Path.mkdir(exist_ok=True)\<close>.\<close>

definition mkdir :: "fs \<Rightarrow> path \<Rightarrow> error + fs" where
  "mkdir fs p =
     (case lookup fs p of
        Some Dir \<Rightarrow> Inr fs
      | Some File \<Rightarrow> Inl FileExistsError
      | None \<Rightarrow>
          if is_dir fs (butlast p) then Inr (fs @ [(p, Dir)])
          else if present fs (butlast p) then Inl NotADirectoryError
          else Inl FileNotFoundError)"

text \<open>\<open>Path.mkdir(exist_ok=True, parents=True)\<close>: the chain of ancestors, outermost
  first, each created when missing.\<close>

fun mk_chain :: "fs \<Rightarrow> path list \<Rightarrow> error + fs" where
  "mk_chain fs [] = Inr fs"
| "mk_chain fs (q # qs) =
     (case lookup fs q of
        Some Dir \<Rightarrow> mk_chain fs qs
      | Some File \<Rightarrow> Inl (if qs = [] then FileExistsError else NotADirectoryError)
      | None \<Rightarrow> mk_chain (fs @ [(q, Dir)]) qs)"

definition mkdir_parents :: "fs \<Rightarrow> path \<Rightarrow> error + fs" where
  "mkdir_parents fs p = mk_chain fs (map (\<lambda>n. take n p) [1..<Suc (length p)])"

section \<open>The average builder and the barrier\<close>

text \<open>The outcome of a call into code outside this module (the elastix run behind
  \<open>TargetBasedRegistration.run\<close>, \<open>common.average\<close>): it is chosen by the environment.\<close>

datatype ext_outcome = Succeeds | Fails | FailsAfterMkdir

text \<open>Lines 28 to 32 of \<open>make_avg\<close>: one input path per subdirectory.\<close>

fun avg_inputs :: "fs \<Rightarrow> path list \<Rightarrow> path list" where
  "avg_inputs fs [] = []"
| "avg_inputs fs (spec_dir # rest) =
     (if \<not> is_dir fs spec_dir then avg_inputs fs rest
      else (spec_dir @ [last spec_dir @ ''.nrrd'']) # avg_inputs fs rest)"

definition make_avg_paths :: "fs \<Rightarrow> path \<Rightarrow> error + path list" where
  "make_avg_paths fs root_dir =
     (case iterdir fs root_dir of Inl e \<Rightarrow> Inl e | Inr ds \<Rightarrow> Inr (avg_inputs fs ds))"

text \<open>\<open>make_avg\<close>: the paths go to \<open>common.average\<close>, whose result is written to
  \<open>out_path\<close>.  Whether \<open>common.average\<close> succeeds on these paths is the environment's
  choice.\<close>

definition make_avg :: "ext_outcome \<Rightarrow> fs \<Rightarrow> path \<Rightarrow> path \<Rightarrow> error + fs" where
  "make_avg average fs root_dir out_path =
     (case make_avg_paths fs root_dir of
        Inl e \<Rightarrow> Inl e
      | Inr paths \<Rightarrow>
          (case average of
             Succeeds \<Rightarrow> write_file fs out_path
           | _ \<Rightarrow> Inl AverageError))"

text \<open>\<open>check_stage_done\<close>, lines 40 to 46.\<close>

fun all_spec_done :: "fs \<Rightarrow> path list \<Rightarrow> bool" where
  "all_spec_done fs [] = True"
| "all_spec_done fs (spec_dir # rest) =
     (if \<not> is_dir fs spec_dir then all_spec_done fs rest
      else if \<not> is_file fs (spec_dir @ [''spec_done'']) then False
      else all_spec_done fs rest)"

definition check_stage_done :: "fs \<Rightarrow> path \<Rightarrow> error + bool" where
  "check_stage_done fs root_dir =
     (case iterdir fs root_dir of Inl e \<Rightarrow> Inl e | Inr ds \<Rightarrow> Inr (all_spec_done fs ds))"

section \<open>One worker of \<open>run_elastix_stage\<close>\<close>

text \<open>
  What \<open>run_elastix_stage\<close> reads from its arguments and from \<open>LamaConfig\<close> before the
  stage loop: the two directories, \<open>config['fixed_volume']\<close>, the stage ids of
  \<open>config['registration_stage_params']\<close> in order, the ordered dictionary
  \<open>config.stage_dirs\<close>, the dictionary returned by \<open>generate_elx_parameters\<close>, the
  constant \<open>ELX_PARAM_PREFIX\<close> and the specimen ids (the stems of the input files).
\<close>

record env =
  inputs_dir :: path
  out_dir :: path
  fixed_volume :: path
  stages :: "string list"
  stage_dirs :: "(string \<times> path) list"
  elastix_stage_parameters :: "(string \<times> string) list"
  ELX_PARAM_PREFIX :: string
  spec_ids :: "string list"

definition avg_dir :: "env \<Rightarrow> path" where
  "avg_dir c = out_dir c @ [''averages'']"

text \<open>
  The program points of a worker are named after the source line the worker is about
  to execute.  A worker that has left the function is \<open>Returned\<close> or \<open>Raised e\<close>.
\<close>

datatype pc =
    L58 | L71 | L86 | L94 | L99 | L102 | L106 | L111 | L112 | L114
  | L117 | L126 | L148 | L150 | Returned | Raised error

text \<open>A call the worker has made into the registration engine or into \<open>make_avg\<close>:
  the history \<open>calls\<close> is kept only to state properties.  \<open>RegCall i s m f\<close> is the
  registration of specimen \<open>s\<close> in the stage of index \<open>i\<close> with moving volume \<open>m\<close> and
  fixed volume \<open>f\<close>; \<open>AvgCall d out\<close> is \<open>make_avg(d, out)\<close>.\<close>

datatype call = RegCall nat string path path | AvgCall path path

text \<open>The local variables: \<open>idx\<close> is the loop variable \<open>i\<close>.\<close>

record worker =
  pc :: pc
  idx :: nat
  stage_id :: string
  stage_dir :: path
  next_spec_id :: "string option"
  fixed_vol :: path
  moving :: path
  calls :: "call list"

text \<open>What the environment decides at a step: which element of the set \<open>not_started\<close>
  comes first in \<open>list(not_started)\<close>, how an external call ends, and an error injected
  into an exclusive creation.\<close>

record event =
  pick :: nat
  ext :: ext_outcome
  fault :: "error option"

definition raise :: "error \<Rightarrow> worker \<Rightarrow> worker" where
  "raise e w = w\<lparr>pc := Raised e\<rparr>"

definition init_worker :: worker where
  "init_worker = \<lparr>pc = L58, idx = 0, stage_id = [], stage_dir = [], next_spec_id = None,
     fixed_vol = [], moving = [], calls = []\<rparr>"

text \<open>Lines 58 to 69.\<close>

definition step_L58 :: "env \<Rightarrow> fs \<Rightarrow> worker \<Rightarrow> fs \<times> worker" where
  "step_L58 c fs w =
     (case mkdir fs (avg_dir c) of
        Inl e \<Rightarrow> (fs, raise e w)
      | Inr fs' \<Rightarrow> (fs', w\<lparr>pc := L71, idx := 0, fixed_vol := fixed_volume c\<rparr>))"

text \<open>Lines 71 to 81: the head of the stage loop.\<close>

definition step_L71 :: "env \<Rightarrow> fs \<Rightarrow> worker \<Rightarrow> fs \<times> worker" where
  "step_L71 c fs w =
     (if length (stages c) \<le> idx w then (fs, w\<lparr>pc := Returned\<rparr>)
      else
        (case map_of (stage_dirs c) (stages c ! idx w) of
           None \<Rightarrow> (fs, raise KeyError w)
         | Some d \<Rightarrow>
             (case mkdir_parents fs d of
                Inl e \<Rightarrow> (fs, raise e w)
              | Inr fs' \<Rightarrow> (fs', w\<lparr>pc := L86, stage_id := stages c ! idx w, stage_dir := d\<rparr>))))"

text \<open>Lines 86 to 90: the specimens with no directory in the stage directory.\<close>

definition spec_stage_dirs :: "fs \<Rightarrow> path list \<Rightarrow> string list" where
  "spec_stage_dirs fs ds = map last (filter (is_dir fs) ds)"

definition not_started :: "env \<Rightarrow> fs \<Rightarrow> path \<Rightarrow> error + string list" where
  "not_started c fs d =
     (case iterdir fs d of
        Inl e \<Rightarrow> Inl e
      | Inr ds \<Rightarrow>
          Inr (filter (\<lambda>s. s \<notin> set (spec_stage_dirs fs ds)) (remdups (spec_ids c))))"

definition step_L86 :: "env \<Rightarrow> event \<Rightarrow> fs \<Rightarrow> worker \<Rightarrow> fs \<times> worker" where
  "step_L86 c ev fs w =
     (case not_started c fs (stage_dir w) of
        Inl e \<Rightarrow> (fs, raise e w)
      | Inr ns \<Rightarrow>
          if 0 < length ns
          then (fs, w\<lparr>pc := L117, next_spec_id := Some (ns ! (pick ev mod length ns))\<rparr>)
          else (fs, w\<lparr>pc := L94\<rparr>))"

text \<open>Lines 93 to 97: one poll of the barrier; a failed poll sleeps and polls again.\<close>

definition step_L94 :: "fs \<Rightarrow> worker \<Rightarrow> fs \<times> worker" where
  "step_L94 fs w =
     (case check_stage_done fs (stage_dir w) of
        Inl e \<Rightarrow> (fs, raise e w)
      | Inr done \<Rightarrow> if \<not> done then (fs, w\<lparr>pc := L94\<rparr>) else (fs, w\<lparr>pc := L99\<rparr>))"

text \<open>Lines 99 and 100: \<open>break\<close> leaves the work loop, and the stage loop goes on.\<close>

definition step_L99 :: "fs \<Rightarrow> worker \<Rightarrow> fs \<times> worker" where
  "step_L99 fs w =
     (if is_file fs (stage_dir w @ [''avg_done''])
      then (fs, w\<lparr>pc := L71, idx := Suc (idx w)\<rparr>)
      else (fs, w\<lparr>pc := L102\<rparr>))"

text \<open>Lines 102 to 104.\<close>

definition step_L102 :: "fs \<Rightarrow> worker \<Rightarrow> fs \<times> worker" where
  "step_L102 fs w =
     (if is_file fs (stage_dir w @ [''avg_started''])
      then (fs, w\<lparr>pc := L114\<rparr>)
      else (fs, w\<lparr>pc := L106\<rparr>))"

text \<open>Lines 105 to 109: the election.  Only \<open>FileExistsError\<close> is caught.\<close>

definition step_L106 :: "event \<Rightarrow> fs \<Rightarrow> worker \<Rightarrow> fs \<times> worker" where
  "step_L106 ev fs w =
     (case open_x (fault ev) fs (stage_dir w @ [''avg_started'']) of
        Inr fs' \<Rightarrow> (fs', w\<lparr>pc := L111\<rparr>)
      | Inl e \<Rightarrow> if e = FileExistsError then (fs, w\<lparr>pc := L114\<rparr>) else (fs, raise e w))"

text \<open>Lines 110 and 111: the elected worker builds the average.\<close>

definition average_path :: "env \<Rightarrow> worker \<Rightarrow> path" where
  "average_path c w = avg_dir c @ [stage_id w @ ''.nrrd'']"

definition step_L111 :: "env \<Rightarrow> event \<Rightarrow> fs \<Rightarrow> worker \<Rightarrow> fs \<times> worker" where
  "step_L111 c ev fs w =
     (let w1 = w\<lparr>calls := calls w @ [AvgCall (stage_dir w) (average_path c w)]\<rparr>
      in case make_avg (ext ev) fs (stage_dir w) (average_path c w) of
           Inl e \<Rightarrow> (fs, raise e w1)
         | Inr fs' \<Rightarrow> (fs', w1\<lparr>pc := L112\<rparr>))"

text \<open>Lines 112 and 113.\<close>

definition step_L112 :: "event \<Rightarrow> fs \<Rightarrow> worker \<Rightarrow> fs \<times> worker" where
  "step_L112 ev fs w =
     (case open_x (fault ev) fs (stage_dir w @ [''avg_done'']) of
        Inl e \<Rightarrow> (fs, raise e w)
      | Inr fs' \<Rightarrow> (fs', w\<lparr>pc := L71, idx := Suc (idx w)\<rparr>))"

text \<open>Line 114 is the last statement of the \<open>else\<close> branch of line 91; the statement
  after that branch is line 117.\<close>

definition step_L114 :: "fs \<Rightarrow> worker \<Rightarrow> fs \<times> worker" where
  "step_L114 fs w = (fs, w\<lparr>pc := L117\<rparr>)"

text \<open>Lines 117 to 122: a local variable that was never assigned raises.  In the branch
  of the later stages the list is indexed before \<open>next_spec_id\<close> is read.\<close>

definition step_L117 :: "env \<Rightarrow> fs \<Rightarrow> worker \<Rightarrow> fs \<times> worker" where
  "step_L117 c fs w =
     (if idx w = 0 then
        (case next_spec_id w of
           None \<Rightarrow> (fs, raise UnboundLocalError w)
         | Some s \<Rightarrow> (fs, w\<lparr>pc := L126, moving := inputs_dir c @ [s @ ''.nrrd'']\<rparr>))
      else if length (stage_dirs c) \<le> idx w - 1 then (fs, raise IndexError w)
      else
        (case next_spec_id w of
           None \<Rightarrow> (fs, raise UnboundLocalError w)
         | Some s \<Rightarrow>
             (fs, w\<lparr>pc := L126,
                    moving := snd (stage_dirs c ! (idx w - 1)) @ [s, s @ ''.nrrd''],
                    fixed_vol := avg_dir c @ [fst (stage_dirs c ! (idx w - 1)) @ ''.nrrd'']\<rparr>)))"

text \<open>Lines 126 to 132: the parameter file of the stage.\<close>

definition elxparam_path :: "env \<Rightarrow> worker \<Rightarrow> path" where
  "elxparam_path c w = stage_dir w @ [ELX_PARAM_PREFIX c @ stage_id w @ ''.txt'']"

definition step_L126 :: "env \<Rightarrow> fs \<Rightarrow> worker \<Rightarrow> fs \<times> worker" where
  "step_L126 c fs w =
     (case map_of (elastix_stage_parameters c) (stage_id w) of
        None \<Rightarrow> (fs, raise KeyError w)
      | Some elxparam \<Rightarrow>
          if \<not> is_file fs (elxparam_path c w)
          then (case write_file fs (elxparam_path c w) of
                  Inl e \<Rightarrow> (fs, raise e w)
                | Inr fs' \<Rightarrow> (fs', w\<lparr>pc := L148\<rparr>))
          else (fs, w\<lparr>pc := L148\<rparr>))"

text \<open>Modelled from the spec: \<open>TargetBasedRegistration.run\<close> is not part of this module.
  The comment of line 149 says that it creates the specimen's directory in the stage
  directory, and line 121 and \<open>make_avg\<close> read its output volume at
  \<open><stage_dir>/<id>/<id>.nrrd\<close>.  A run that fails raises; it may have created the
  directory before.  It touches nothing else.\<close>

definition registrator_run :: "ext_outcome \<Rightarrow> fs \<Rightarrow> path \<Rightarrow> string \<Rightarrow> fs \<times> error option" where
  "registrator_run outcome fs d s =
     (case outcome of
        Fails \<Rightarrow> (fs, Some RegistrationError)
      | FailsAfterMkdir \<Rightarrow>
          (case mkdir fs (d @ [s]) of
             Inl e \<Rightarrow> (fs, Some RegistrationError)
           | Inr fs1 \<Rightarrow> (fs1, Some RegistrationError))
      | Succeeds \<Rightarrow>
          (case mkdir fs (d @ [s]) of
             Inl e \<Rightarrow> (fs, Some RegistrationError)
           | Inr fs1 \<Rightarrow>
               (case write_file fs1 (d @ [s, s @ ''.nrrd'']) of
                  Inl e \<Rightarrow> (fs1, Some RegistrationError)
                | Inr fs2 \<Rightarrow> (fs2, None))))"

text \<open>Lines 138 to 148.\<close>

definition step_L148 :: "event \<Rightarrow> fs \<Rightarrow> worker \<Rightarrow> fs \<times> worker" where
  "step_L148 ev fs w =
     (case next_spec_id w of
        None \<Rightarrow> (fs, raise UnboundLocalError w)
      | Some s \<Rightarrow>
          (let w1 = w\<lparr>calls := calls w @ [RegCall (idx w) s (moving w) (fixed_vol w)]\<rparr>
           in case registrator_run (ext ev) fs (stage_dir w) s of
                (fs', Some e) \<Rightarrow> (fs', raise e w1)
              | (fs', None) \<Rightarrow> (fs', w1\<lparr>pc := L150\<rparr>)))"

text \<open>Lines 149 and 150: the completion marker is created exclusively, and nothing
  catches the error; then the work loop starts over.\<close>

definition step_L150 :: "event \<Rightarrow> fs \<Rightarrow> worker \<Rightarrow> fs \<times> worker" where
  "step_L150 ev fs w =
     (case next_spec_id w of
        None \<Rightarrow> (fs, raise UnboundLocalError w)
      | Some s \<Rightarrow>
          (case open_x (fault ev) fs (stage_dir w @ [s, ''spec_done'']) of
             Inl e \<Rightarrow> (fs, raise e w)
           | Inr fs' \<Rightarrow> (fs', w\<lparr>pc := L86\<rparr>)))"

text \<open>One step of \<open>run_elastix_stage\<close>: the statement at the worker's program point.\<close>

definition wstep :: "env \<Rightarrow> event \<Rightarrow> fs \<Rightarrow> worker \<Rightarrow> fs \<times> worker" where
  "wstep c ev fs w =
     (case pc w of
        L58 \<Rightarrow> step_L58 c fs w
      | L71 \<Rightarrow> step_L71 c fs w
      | L86 \<Rightarrow> step_L86 c ev fs w
      | L94 \<Rightarrow> step_L94 fs w
      | L99 \<Rightarrow> step_L99 fs w
      | L102 \<Rightarrow> step_L102 fs w
      | L106 \<Rightarrow> step_L106 ev fs w
      | L111 \<Rightarrow> step_L111 c ev fs w
      | L112 \<Rightarrow> step_L112 ev fs w
      | L114 \<Rightarrow> step_L114 fs w
      | L117 \<Rightarrow> step_L117 c fs w
      | L126 \<Rightarrow> step_L126 c fs w
      | L148 \<Rightarrow> step_L148 ev fs w
      | L150 \<Rightarrow> step_L150 ev fs w
      | Returned \<Rightarrow> (fs, w)
      | Raised e \<Rightarrow> (fs, w))"

section \<open>Several workers on one filesystem\<close>

text \<open>
  The workers are processes that interleave at the granularity of the steps above: a
  step reads or writes the filesystem once (a directory listing, the barrier poll, an
  exclusive creation, the registration, the averaging).  A schedule says which worker
  moves next and what the environment decides for that step.  No step removes a node,
  and nothing but the workers changes the filesystem; sleeping is no step.
\<close>

type_synonym system = "fs \<times> worker list"

definition sys_step :: "env \<Rightarrow> nat \<times> event \<Rightarrow> system \<Rightarrow> system" where
  "sys_step c ke s =
     (case s of (fs, ws) \<Rightarrow>
        if fst ke < length ws
        then (case wstep c (snd ke) fs (ws ! fst ke) of
                (fs', w') \<Rightarrow> (fs', ws[fst ke := w']))
        else (fs, ws))"

definition run :: "env \<Rightarrow> (nat \<times> event) list \<Rightarrow> system \<Rightarrow> system" where
  "run c sched s = fold (sys_step c) sched s"

definition start :: "fs \<Rightarrow> nat \<Rightarrow> system" where
  "start fs n = (fs, replicate n init_worker)"

section \<open>Notions used to state the properties\<close>

text \<open>The filesystem only grows: a later filesystem has every node of an earlier one.\<close>

definition fs_le :: "fs \<Rightarrow> fs \<Rightarrow> bool" where
  "fs_le fs fs' = (\<forall>p n. lookup fs p = Some n \<longrightarrow> lookup fs' p = Some n)"

text \<open>How often a worker has won the election of the stage directory \<open>d\<close>: once if it
  stands in the builder branch, plus the calls of \<open>make_avg\<close> on \<open>d\<close> it has made.\<close>

fun is_avg_call :: "path \<Rightarrow> call \<Rightarrow> bool" where
  "is_avg_call d (AvgCall d' out) = (d' = d)"
| "is_avg_call d (RegCall i s m f) = False"

definition avg_calls :: "path \<Rightarrow> worker \<Rightarrow> nat" where
  "avg_calls d w = length (filter (is_avg_call d) (calls w))"

definition elected :: "path \<Rightarrow> worker \<Rightarrow> nat" where
  "elected d w = (if pc w = L111 \<and> stage_dir w = d then 1 else 0) + avg_calls d w"

definition elected_total :: "path \<Rightarrow> system \<Rightarrow> nat" where
  "elected_total d s = sum_list (map (elected d) (snd s))"

definition mark :: "path \<Rightarrow> fs \<Rightarrow> nat" where
  "mark d fs = (if present fs (d @ [''avg_started'']) then 1 else 0)"

text \<open>A small configuration for concrete runs: two stages, three specimens.\<close>

definition demo_env :: env where
  "demo_env = \<lparr>inputs_dir = [''in''], out_dir = [''out''], fixed_volume = [''fixed.nrrd''],
     stages = [''s0'', ''s1''],
     stage_dirs = [(''s0'', [''out'', ''s0'']), (''s1'', [''out'', ''s1''])],
     elastix_stage_parameters = [(''s0'', ''p0''), (''s1'', ''p1'')],
     ELX_PARAM_PREFIX = ''elx_'', spec_ids = [''a'', ''b'', ''c'']\<rparr>"

definition demo_fs :: fs where
  "demo_fs = [([''in''], Dir), ([''out''], Dir)]"

definition ok :: event where
  "ok = \<lparr>pick = 0, ext = Succeeds, fault = None\<rparr>"

definition at_stage0 :: "pc \<Rightarrow> string option \<Rightarrow> worker" where
  "at_stage0 l s = \<lparr>pc = l, idx = 0, stage_id = ''s0'', stage_dir = [''out'', ''s0''],
     next_spec_id = s, fixed_vol = [''fixed.nrrd''], moving = [], calls = []\<rparr>"

text \<open>The program points inside the work loop of a stage.\<close>

fun in_stage :: "pc \<Rightarrow> bool" where
  "in_stage L58 = False"
| "in_stage L71 = False"
| "in_stage Returned = False"
| "in_stage (Raised e) = False"
| "in_stage l = True"

text \<open>The volumes lines 117 to 122 compute for a specimen in the stage of index \<open>i\<close>.\<close>

definition moving_for :: "env \<Rightarrow> nat \<Rightarrow> string \<Rightarrow> path" where
  "moving_for c i s =
     (if i = 0 then inputs_dir c @ [s @ ''.nrrd'']
      else snd (stage_dirs c ! (i - 1)) @ [s, s @ ''.nrrd''])"

definition fixed_for :: "env \<Rightarrow> nat \<Rightarrow> path" where
  "fixed_for c i =
     (if i = 0 then fixed_volume c
      else avg_dir c @ [fst (stage_dirs c ! (i - 1)) @ ''.nrrd''])"

fun call_ok :: "env \<Rightarrow> call \<Rightarrow> bool" where
  "call_ok c (RegCall i s m f) =
     (i < length (stages c) \<and> m = moving_for c i s \<and> f = fixed_for c i)"
| "call_ok c (AvgCall d out) =
     (\<exists>k<length (stages c). map_of (stage_dirs c) (stages c ! k) = Some d \<and>
        out = avg_dir c @ [stages c ! k @ ''.nrrd''])"

text \<open>Invariants of a worker that do not depend on the filesystem.\<close>

definition stage_ok :: "env \<Rightarrow> worker \<Rightarrow> bool" where
  "stage_ok c w =
     (in_stage (pc w) \<longrightarrow>
        idx w < length (stages c) \<and> stage_id w = stages c ! idx w \<and>
        map_of (stage_dirs c) (stage_id w) = Some (stage_dir w))"

definition fixed0 :: "env \<Rightarrow> worker \<Rightarrow> bool" where
  "fixed0 c w = ((pc w = L71 \<or> in_stage (pc w)) \<and> idx w = 0 \<longrightarrow> fixed_vol w = fixed_volume c)"

definition resolved :: "env \<Rightarrow> worker \<Rightarrow> bool" where
  "resolved c w =
     (pc w = L126 \<or> pc w = L148 \<longrightarrow>
        (\<exists>s. next_spec_id w = Some s \<and> moving w = moving_for c (idx w) s) \<and>
        fixed_vol w = fixed_for c (idx w))"

definition chained :: "env \<Rightarrow> worker \<Rightarrow> bool" where
  "chained c w =
     (stage_ok c w \<and> fixed0 c w \<and> resolved c w \<and> (\<forall>x\<in>set (calls w). call_ok c x))"

text \<open>The chaining of the volumes as the specification words it: stage 0 registers the
  raw input against the configured fixed volume; stage \<open>j + 1\<close> registers the output of
  stage \<open>j\<close> against the average of stage \<open>j\<close>; the average of a stage is written to
  \<open>averages/<stage_id>.nrrd\<close>.\<close>

fun follows_chain :: "env \<Rightarrow> call \<Rightarrow> bool" where
  "follows_chain c (RegCall i s m f) =
     (case i of
        0 \<Rightarrow> m = inputs_dir c @ [s @ ''.nrrd''] \<and> f = fixed_volume c
      | Suc j \<Rightarrow>
          map_option (\<lambda>d. d @ [s, s @ ''.nrrd'']) (map_of (stage_dirs c) (stages c ! j)) = Some m \<and>
          f = avg_dir c @ [stages c ! j @ ''.nrrd''])"
| "follows_chain c (AvgCall d out) =
     (\<exists>sid\<in>set (stages c). map_of (stage_dirs c) sid = Some d \<and> out = avg_dir c @ [sid @ ''.nrrd''])"

text \<open>A stage directory with a finished specimen, a stray directory and plain files.\<close>

definition stray_fs :: fs where
  "stray_fs = [([''out''], Dir), ([''out'', ''s0''], Dir),
     ([''out'', ''s0'', ''elx_s0.txt''], File),
     ([''out'', ''s0'', ''a''], Dir), ([''out'', ''s0'', ''a'', ''a.nrrd''], File),
     ([''out'', ''s0'', ''a'', ''spec_done''], File),
     ([''out'', ''s0'', ''stray''], Dir),
     ([''out'', ''s0'', ''avg_started''], File)]"

text \<open>An event with an error of the operating system injected into the exclusive
  creation, and one whose external call fails after the directory was made.\<close>

definition io_error :: event where
  "io_error = \<lparr>pick = 0, ext = Succeeds, fault = Some OtherOSError\<rparr>"


text \<open>Two workers on \<open>demo_fs\<close>: worker 0 registers \<open>a\<close> and \<open>b\<close>, worker 1 registers \<open>c\<close>,
  worker 0 passes the barrier and wins the election, and worker 1 reaches line 102
  while worker 0 is building the average.\<close>

definition loser_sched :: "(nat \<times> event) list" where
  "loser_sched = replicate 12 (0, ok) @ replicate 7 (1, ok) @ replicate 5 (0, ok) @ replicate 3 (1, ok)"

text \<open>Worker 0 does all of stage 0 up to the builder branch before worker 1 starts.\<close>

definition late_sched :: "(nat \<times> event) list" where
  "late_sched = replicate 22 (0, ok) @ replicate 5 (1, ok)"

text \<open>Two workers in lockstep: both read the stage directory before either has
  registered anything, and both pick specimen \<open>a\<close>.\<close>

definition lockstep :: "nat \<Rightarrow> (nat \<times> event) list" where
  "lockstep k = concat (replicate k [(0, ok), (1, ok)])"

text \<open>What holds of a worker that has advanced to the stage of index \<open>idx\<close>: every
  earlier stage has its \<open>avg_done\<close> marker; its registrations so far were made in stages up
  to \<open>idx\<close>; and before line 112 it has just written the average.\<close>

definition done_before :: "env \<Rightarrow> fs \<Rightarrow> worker \<Rightarrow> bool" where
  "done_before c fs w =
     (\<forall>k<idx w. \<exists>d. map_of (stage_dirs c) (stages c ! k) = Some d \<and> is_file fs (d @ [''avg_done'']))"

definition fresh_ok :: "worker \<Rightarrow> bool" where
  "fresh_ok w = (pc w = L58 \<longrightarrow> idx w = 0 \<and> calls w = [])"

fun call_stage :: "call \<Rightarrow> nat" where
  "call_stage (RegCall i s m f) = i"
| "call_stage (AvgCall d out) = 0"

definition calls_le :: "worker \<Rightarrow> bool" where
  "calls_le w = (\<forall>x\<in>set (calls w). call_stage x \<le> idx w)"

definition built :: "env \<Rightarrow> fs \<Rightarrow> worker \<Rightarrow> bool" where
  "built c fs w =
     (pc w = L112 \<longrightarrow>
        is_file fs (average_path c w) \<and> calls w \<noteq> [] \<and>
        last (calls w) = AvgCall (stage_dir w) (average_path c w))"

definition adv :: "env \<Rightarrow> fs \<Rightarrow> worker \<Rightarrow> bool" where
  "adv c fs w = (stage_ok c w \<and> fresh_ok w \<and> calls_le w \<and> built c fs w \<and> done_before c fs w)"

text \<open>Every stage whose \<open>avg_done\<close> marker exists has its average volume.\<close>

definition averaged :: "env \<Rightarrow> fs \<Rightarrow> bool" where
  "averaged c fs =
     (\<forall>sid d. map_of (stage_dirs c) sid = Some d \<and> is_file fs (d @ [''avg_done''])
        \<longrightarrow> is_file fs (avg_dir c @ [sid @ ''.nrrd'']))"

text \<open>The barrier: all specimens of the configuration have their completion marker in
  the stage directory \<open>d\<close>.\<close>

definition all_done :: "env \<Rightarrow> fs \<Rightarrow> path \<Rightarrow> bool" where
  "all_done c fs d = (\<forall>s\<in>set (spec_ids c). is_file fs (d @ [s, ''spec_done'']))"

fun after_barrier :: "pc \<Rightarrow> bool" where
  "after_barrier L99 = True"
| "after_barrier L102 = True"
| "after_barrier L106 = True"
| "after_barrier L111 = True"
| "after_barrier L112 = True"
| "after_barrier l = False"

fun avg_ok :: "env \<Rightarrow> fs \<Rightarrow> call \<Rightarrow> bool" where
  "avg_ok c fs (AvgCall d out) = all_done c fs d"
| "avg_ok c fs (RegCall i s m f) = True"

definition barrier :: "env \<Rightarrow> fs \<Rightarrow> worker \<Rightarrow> bool" where
  "barrier c fs w =
     ((pc w = L94 \<longrightarrow> (\<forall>s\<in>set (spec_ids c). is_dir fs (stage_dir w @ [s]))) \<and>
      (after_barrier (pc w) \<longrightarrow> all_done c fs (stage_dir w)) \<and>
      (\<forall>x\<in>set (calls w). avg_ok c fs x))"

text \<open>A completion marker that is withheld: the specimen has its directory in the stage
  directory but no \<open>spec_done\<close> file.  \<open>held\<close> is what then holds of every worker.\<close>

definition withheld :: "path \<Rightarrow> string \<Rightarrow> fs \<Rightarrow> bool" where
  "withheld d s fs = (is_dir fs (d @ [s]) \<and> \<not> is_file fs (d @ [s, ''spec_done'']))"

fun past_barrier :: "pc \<Rightarrow> bool" where
  "past_barrier L99 = True"
| "past_barrier L102 = True"
| "past_barrier L106 = True"
| "past_barrier L111 = True"
| "past_barrier L112 = True"
| "past_barrier L114 = True"
| "past_barrier l = False"

fun registering :: "pc \<Rightarrow> bool" where
  "registering L117 = True"
| "registering L126 = True"
| "registering L148 = True"
| "registering L150 = True"
| "registering l = False"

definition held :: "path \<Rightarrow> string \<Rightarrow> worker \<Rightarrow> bool" where
  "held d s w =
     ((stage_dir w = d \<longrightarrow>
         \<not> past_barrier (pc w) \<and> (registering (pc w) \<longrightarrow> next_spec_id w \<noteq> Some s)) \<and>
      avg_calls d w = 0)"

text \<open>One worker alone on \<open>demo_fs\<close>, after \<open>k\<close> steps.\<close>

definition solo :: "nat \<Rightarrow> system" where
  "solo k = run demo_env (replicate k (0, ok)) (start demo_fs 1)"

text \<open>Three specimens in stage \<open>s0\<close>; \<open>a\<close> and \<open>b\<close> are complete, the marker of \<open>c\<close> is
  withheld.\<close>

definition withheld_fs :: fs where
  "withheld_fs = [([''in''], Dir), ([''out''], Dir), ([''out'', ''averages''], Dir),
     ([''out'', ''s0''], Dir), ([''out'', ''s0'', ''elx_s0.txt''], File),
     ([''out'', ''s0'', ''a''], Dir), ([''out'', ''s0'', ''a'', ''a.nrrd''], File),
     ([''out'', ''s0'', ''a'', ''spec_done''], File),
     ([''out'', ''s0'', ''b''], Dir), ([''out'', ''s0'', ''b'', ''b.nrrd''], File),
     ([''out'', ''s0'', ''b'', ''spec_done''], File),
     ([''out'', ''s0'', ''c''], Dir), ([''out'', ''s0'', ''c'', ''c.nrrd''], File)]"

definition polling :: system where
  "polling = run demo_env (replicate 20 (0, ok) @ replicate 20 (1, ok)) (start withheld_fs 2)"

text \<open>The state of a stage that a stopped run has left behind: the stage directory \<open>d\<close>
  of the first stage exists with its parameter file, the specimens \<open>s1\<close> and \<open>s2\<close> have their
  directories, every subdirectory of \<open>d\<close> has its completion marker, nothing exists for
  the specimen \<open>s3\<close>, and neither an election marker nor the average exists.
  \<open>resumed_fs\<close> and \<open>resumed_worker\<close> are the filesystem and the worker at the end of
  the stage.\<close>

definition seeded :: "env \<Rightarrow> fs \<Rightarrow> path \<Rightarrow> string \<Rightarrow> string \<Rightarrow> string \<Rightarrow> bool" where
  "seeded c fs d s1 s2 s3 =
     (stages c \<noteq> [] \<and> map_of (stage_dirs c) (stages c ! 0) = Some d \<and>
      map_of (elastix_stage_parameters c) (stages c ! 0) \<noteq> None \<and>
      spec_ids c = [s1, s2, s3] \<and> distinct [s1, s2, s3] \<and>
      is_dir fs (avg_dir c) \<and> avg_dir c \<noteq> d \<and> (\<forall>k. is_dir fs (take k d)) \<and>
      is_file fs (d @ [ELX_PARAM_PREFIX c @ stages c ! 0 @ ''.txt'']) \<and>
      is_dir fs (d @ [s1]) \<and> is_dir fs (d @ [s2]) \<and>
      (\<forall>x. is_dir fs (d @ [x]) \<longrightarrow> is_file fs (d @ [x, ''spec_done''])) \<and>
      \<not> present fs (d @ [s3]) \<and> \<not> present fs (d @ [s3, s3 @ ''.nrrd'']) \<and>
      \<not> present fs (d @ [s3, ''spec_done'']) \<and>
      \<not> present fs (d @ [''avg_started'']) \<and> \<not> present fs (d @ [''avg_done'']) \<and>
      \<not> present fs (avg_dir c @ [stages c ! 0 @ ''.nrrd'']) \<and>
      s3 \<noteq> ''avg_started'' \<and> s3 \<noteq> ''avg_done'')"

definition resumed_fs :: "env \<Rightarrow> fs \<Rightarrow> path \<Rightarrow> string \<Rightarrow> fs" where
  "resumed_fs c fs d s3 =
     fs @ [(d @ [s3], Dir), (d @ [s3, s3 @ ''.nrrd''], File), (d @ [s3, ''spec_done''], File),
           (d @ [''avg_started''], File), (avg_dir c @ [stages c ! 0 @ ''.nrrd''], File),
           (d @ [''avg_done''], File)]"

definition resumed_worker :: "env \<Rightarrow> path \<Rightarrow> string \<Rightarrow> worker" where
  "resumed_worker c d s3 =
     \<lparr>pc = L71, idx = 1, stage_id = stages c ! 0, stage_dir = d, next_spec_id = Some s3,
      fixed_vol = fixed_volume c, moving = inputs_dir c @ [s3 @ ''.nrrd''],
      calls = [RegCall 0 s3 (inputs_dir c @ [s3 @ ''.nrrd'']) (fixed_volume c),
               AvgCall d (avg_dir c @ [stages c ! 0 @ ''.nrrd''])]\<rparr>"

definition seeded_fs :: fs where
  "seeded_fs = [([''in''], Dir), ([''out''], Dir), ([''out'', ''averages''], Dir),
     ([''out'', ''s0''], Dir), ([''out'', ''s0'', ''elx_s0.txt''], File),
     ([''out'', ''s0'', ''a''], Dir), ([''out'', ''s0'', ''a'', ''a.nrrd''], File),
     ([''out'', ''s0'', ''a'', ''spec_done''], File),
     ([''out'', ''s0'', ''b''], Dir), ([''out'', ''s0'', ''b'', ''b.nrrd''], File),
     ([''out'', ''s0'', ''b'', ''spec_done''], File)]"




section \<open>The filesystem only grows\<close>

lemmas step_defs = step_L58_def step_L71_def step_L86_def step_L94_def step_L99_def
  step_L102_def step_L106_def step_L111_def step_L112_def step_L114_def step_L117_def
  step_L126_def step_L148_def step_L150_def

lemma lookup_append:
  "lookup (fs @ [(p, n)]) q = (if lookup fs q = None \<and> q = p then Some n else lookup fs q)"
  by (auto simp: lookup_def map_add_def split: option.splits)

lemma fs_le_refl: "fs_le fs fs"
  by (simp add: fs_le_def)

lemma fs_le_trans: "fs_le a b \<Longrightarrow> fs_le b c \<Longrightarrow> fs_le a c"
  by (simp add: fs_le_def)

lemma fs_le_append: "lookup fs p = None \<Longrightarrow> fs_le fs (fs @ [(p, n)])"
  by (simp add: fs_le_def lookup_append)

lemma open_x_le: "open_x flt fs p = Inr fs' \<Longrightarrow> fs_le fs fs'"
  by (auto simp: open_x_def present_def fs_le_append split: option.splits if_splits)

lemma write_file_le: "write_file fs p = Inr fs' \<Longrightarrow> fs_le fs fs'"
  by (auto simp: write_file_def fs_le_append fs_le_refl split: option.splits if_splits node.splits)

lemma mkdir_le: "mkdir fs p = Inr fs' \<Longrightarrow> fs_le fs fs'"
  by (auto simp: mkdir_def fs_le_append fs_le_refl split: option.splits if_splits node.splits)

lemma mk_chain_le: "mk_chain fs qs = Inr fs' \<Longrightarrow> fs_le fs fs'"
proof (induction qs arbitrary: fs)
  case Nil
  then show ?case by (simp add: fs_le_refl)
next
  case (Cons q qs)
  show ?case
  proof (cases "lookup fs q")
    case None
    with Cons.prems have "mk_chain (fs @ [(q, Dir)]) qs = Inr fs'" by simp
    then have "fs_le (fs @ [(q, Dir)]) fs'" by (rule Cons.IH)
    with None show ?thesis by (blast intro: fs_le_trans fs_le_append)
  next
    case (Some n)
    with Cons.prems show ?thesis by (cases n) (auto intro: Cons.IH)
  qed
qed

lemma mkdir_parents_le: "mkdir_parents fs p = Inr fs' \<Longrightarrow> fs_le fs fs'"
  unfolding mkdir_parents_def by (rule mk_chain_le)

lemma make_avg_le: "make_avg a fs d out = Inr fs' \<Longrightarrow> fs_le fs fs'"
  by (auto simp: make_avg_def split: sum.splits ext_outcome.splits dest: write_file_le)

lemma registrator_run_le: "registrator_run a fs d s = (fs', r) \<Longrightarrow> fs_le fs fs'"
  by (auto simp: registrator_run_def fs_le_refl split: sum.splits ext_outcome.splits
      dest: write_file_le mkdir_le intro: fs_le_trans)

lemma wstep_le: "wstep c ev fs w = (fs', w') \<Longrightarrow> fs_le fs fs'"
  unfolding wstep_def
  by (cases "pc w")
     (auto simp: step_defs fs_le_refl Let_def
        split: sum.splits option.splits if_splits prod.splits
        dest: mkdir_le mkdir_parents_le open_x_le make_avg_le write_file_le registrator_run_le)

lemma present_mono: "fs_le fs fs' \<Longrightarrow> present fs p \<Longrightarrow> present fs' p"
  by (auto simp: fs_le_def present_def)

lemma open_x_Inr:
  "open_x flt fs p = Inr fs' \<Longrightarrow> \<not> present fs p \<and> present fs' p \<and> is_file fs' p"
  by (auto simp: open_x_def present_def is_file_def lookup_append split: option.splits if_splits)

section \<open>The election of the average builder\<close>

lemma mark_mono: "fs_le fs fs' \<Longrightarrow> mark d fs \<le> mark d fs'"
  by (auto simp: mark_def dest: present_mono)

lemma mark_le_1: "mark d fs \<le> 1"
  by (simp add: mark_def)

lemma elected_other:
  assumes "wstep c ev fs w = (fs', w')" "pc w \<noteq> L106" "pc w \<noteq> L111"
  shows "elected d w' = elected d w"
  using assms unfolding wstep_def elected_def avg_calls_def
  by (cases "pc w")
     (auto simp: step_defs Let_def raise_def split: sum.splits option.splits if_splits prod.splits)

lemma elected_L111:
  assumes "wstep c ev fs w = (fs', w')" "pc w = L111"
  shows "elected d w' = elected d w"
  using assms unfolding wstep_def elected_def avg_calls_def
  by (auto simp: step_L111_def Let_def raise_def split: sum.splits)

lemma elected_L106:
  assumes "wstep c ev fs w = (fs', w')" "pc w = L106"
  shows "elected d w' + mark d fs \<le> elected d w + mark d fs'"
proof -
  have le: "mark d fs \<le> mark d fs'"
    using assms(1) by (blast intro: mark_mono wstep_le)
  show ?thesis
  proof (cases "open_x (fault ev) fs (stage_dir w @ [''avg_started''])")
    case (Inl e)
    with assms have "elected d w' = elected d w"
      by (auto simp: wstep_def step_L106_def raise_def elected_def avg_calls_def split: if_splits)
    with le show ?thesis by simp
  next
    case (Inr fs1)
    with assms have w': "w' = w\<lparr>pc := L111\<rparr>" and fs': "fs' = fs1"
      by (auto simp: wstep_def step_L106_def)
    show ?thesis
    proof (cases "stage_dir w = d")
      case True
      with Inr fs' have "mark d fs = 0" "mark d fs' = 1"
        by (auto simp: mark_def dest: open_x_Inr)
      with w' assms(2) show ?thesis by (simp add: elected_def avg_calls_def)
    next
      case False
      with w' assms(2) have "elected d w' = elected d w"
        by (simp add: elected_def avg_calls_def)
      with le show ?thesis by simp
    qed
  qed
qed

lemma elected_step:
  assumes "wstep c ev fs w = (fs', w')"
  shows "elected d w' + mark d fs \<le> elected d w + mark d fs'"
proof -
  have le: "mark d fs \<le> mark d fs'"
    using assms by (blast intro: mark_mono wstep_le)
  consider "pc w = L106" | "pc w = L111" | "pc w \<noteq> L106" "pc w \<noteq> L111" by blast
  then show ?thesis
  proof cases
    case 1
    with assms show ?thesis by (rule elected_L106)
  next
    case 2
    with assms have "elected d w' = elected d w" by (rule elected_L111)
    with le show ?thesis by simp
  next
    case 3
    with assms have "elected d w' = elected d w" by (rule elected_other)
    with le show ?thesis by simp
  qed
qed

lemma sum_list_map_update:
  fixes f :: "'a \<Rightarrow> nat"
  assumes "k < length xs"
  shows "sum_list (map f (xs[k := y])) + f (xs ! k) = sum_list (map f xs) + f y"
  using assms
proof (induction xs arbitrary: k)
  case Nil
  then show ?case by simp
next
  case (Cons x xs)
  then show ?case by (cases k) auto
qed

lemma elected_sys_step:
  assumes "elected_total d s \<le> mark d (fst s)"
  shows "elected_total d (sys_step c ke s) \<le> mark d (fst (sys_step c ke s))"
proof (cases s)
  case (Pair fs ws)
  show ?thesis
  proof (cases "fst ke < length ws")
    case False
    with Pair assms show ?thesis by (simp add: sys_step_def)
  next
    case True
    obtain fs' w' where st: "wstep c (snd ke) fs (ws ! fst ke) = (fs', w')"
      by (cases "wstep c (snd ke) fs (ws ! fst ke)")
    from st have e: "elected d w' + mark d fs \<le> elected d (ws ! fst ke) + mark d fs'"
      by (rule elected_step)
    from True have u: "sum_list (map (elected d) (ws[fst ke := w'])) + elected d (ws ! fst ke)
        = sum_list (map (elected d) ws) + elected d w'"
      by (rule sum_list_map_update)
    from assms Pair have a: "sum_list (map (elected d) ws) \<le> mark d fs"
      by (simp add: elected_total_def)
    from e u a have "sum_list (map (elected d) (ws[fst ke := w'])) \<le> mark d fs'"
      by linarith
    with Pair True st show ?thesis by (simp add: sys_step_def elected_total_def)
  qed
qed

lemma elected_run:
  "elected_total d s \<le> mark d (fst s) \<Longrightarrow>
   elected_total d (run c sched s) \<le> mark d (fst (run c sched s))"
  unfolding run_def
proof (induction sched arbitrary: s)
  case Nil
  then show ?case by simp
next
  case (Cons ke sched)
  then show ?case by (simp add: elected_sys_step)
qed

lemma elected_start: "elected_total d (start fs n) = 0"
  by (simp add: elected_total_def start_def elected_def avg_calls_def init_worker_def)

lemma elected_total_le_1: "elected_total d (run c sched (start fs n)) \<le> 1"
proof -
  have "elected_total d (start fs n) \<le> mark d (fst (start fs n))"
    by (simp add: elected_start)
  then have "elected_total d (run c sched (start fs n)) \<le> mark d (fst (run c sched (start fs n)))"
    by (rule elected_run)
  also have "\<dots> \<le> 1" by (rule mark_le_1)
  finally show ?thesis .
qed

lemma L106_loses:
  assumes "pc w = L106" "present fs (stage_dir w @ [''avg_started''])" "fault ev = None"
  shows "wstep c ev fs w = (fs, w\<lparr>pc := L114\<rparr>)"
  using assms by (simp add: wstep_def step_L106_def open_x_def)

lemma L106_wins:
  assumes "pc w = L106" "\<not> present fs (stage_dir w @ [''avg_started''])"
    "is_dir fs (stage_dir w)" "fault ev = None"
  shows "wstep c ev fs w = (fs @ [(stage_dir w @ [''avg_started''], File)], w\<lparr>pc := L111\<rparr>)"
  using assms by (simp add: wstep_def step_L106_def open_x_def)

lemma losers_run:
  assumes "present fs (d @ [''avg_started''])"
    and "distinct (map fst sched)"
    and "\<forall>ke\<in>set sched. fst ke < length ws \<and> fault (snd ke) = None
           \<and> pc (ws ! fst ke) = L106 \<and> stage_dir (ws ! fst ke) = d"
  shows "run c sched (fs, ws) =
     (fs, map (\<lambda>k. if k \<in> fst ` set sched then (ws ! k)\<lparr>pc := L114\<rparr> else ws ! k)
            [0..<length ws])"
  using assms(2,3)
proof (induction sched arbitrary: ws)
  case Nil
  then show ?case by (simp add: run_def map_nth)
next
  case (Cons ke sched)
  let ?k = "fst ke"
  let ?ws1 = "ws[?k := (ws ! ?k)\<lparr>pc := L114\<rparr>]"
  from Cons.prems have k: "?k < length ws" "fault (snd ke) = None" "pc (ws ! ?k) = L106"
    "stage_dir (ws ! ?k) = d" and notin: "?k \<notin> fst ` set sched"
    by auto
  from k assms(1) have st: "sys_step c ke (fs, ws) = (fs, ?ws1)"
    by (simp add: sys_step_def L106_loses)
  have rest: "\<forall>ke'\<in>set sched. fst ke' < length ?ws1 \<and> fault (snd ke') = None
           \<and> pc (?ws1 ! fst ke') = L106 \<and> stage_dir (?ws1 ! fst ke') = d"
    using Cons.prems notin by (auto simp: nth_list_update)
  from Cons.prems have "distinct (map fst sched)" by simp
  from Cons.IH [OF this rest]
  have "run c sched (fs, ?ws1) =
     (fs, map (\<lambda>k. if k \<in> fst ` set sched then (?ws1 ! k)\<lparr>pc := L114\<rparr> else ?ws1 ! k)
            [0..<length ?ws1])" .
  moreover have
    "map (\<lambda>k. if k \<in> fst ` set sched then (?ws1 ! k)\<lparr>pc := L114\<rparr> else ?ws1 ! k) [0..<length ?ws1]
     = map (\<lambda>k. if k \<in> fst ` set (ke # sched) then (ws ! k)\<lparr>pc := L114\<rparr> else ws ! k)
         [0..<length ws]"
    using notin k(1) by (auto simp: nth_list_update)
  ultimately show ?case using st by (simp add: run_def)
qed

lemma race_run:
  assumes "\<not> present fs (d @ [''avg_started''])" "is_dir fs d"
    and "distinct (map fst (ke # rest))"
    and "\<forall>ke'\<in>set (ke # rest). fst ke' < length ws \<and> fault (snd ke') = None
           \<and> pc (ws ! fst ke') = L106 \<and> stage_dir (ws ! fst ke') = d"
  shows "run c (ke # rest) (fs, ws) =
     (fs @ [(d @ [''avg_started''], File)],
      map (\<lambda>k. if k = fst ke then (ws ! k)\<lparr>pc := L111\<rparr>
               else if k \<in> fst ` set rest then (ws ! k)\<lparr>pc := L114\<rparr> else ws ! k)
        [0..<length ws])"
proof -
  let ?k = "fst ke"
  let ?fs1 = "fs @ [(d @ [''avg_started''], File)]"
  let ?ws1 = "ws[?k := (ws ! ?k)\<lparr>pc := L111\<rparr>]"
  from assms have k: "?k < length ws" "fault (snd ke) = None" "pc (ws ! ?k) = L106"
    "stage_dir (ws ! ?k) = d" and notin: "?k \<notin> fst ` set rest"
    and dist: "distinct (map fst rest)"
    by auto
  from k assms(1,2) have st: "sys_step c ke (fs, ws) = (?fs1, ?ws1)"
    by (simp add: sys_step_def L106_wins)
  have pr: "present ?fs1 (d @ [''avg_started''])"
    by (simp add: present_def lookup_append)
  have rest: "\<forall>ke'\<in>set rest. fst ke' < length ?ws1 \<and> fault (snd ke') = None
           \<and> pc (?ws1 ! fst ke') = L106 \<and> stage_dir (?ws1 ! fst ke') = d"
    using assms(4) notin by (auto simp: nth_list_update)
  have "run c rest (?fs1, ?ws1) =
     (?fs1, map (\<lambda>k. if k \<in> fst ` set rest then (?ws1 ! k)\<lparr>pc := L114\<rparr> else ?ws1 ! k)
              [0..<length ?ws1])"
    by (rule losers_run [OF pr dist rest])
  moreover have
    "map (\<lambda>k. if k \<in> fst ` set rest then (?ws1 ! k)\<lparr>pc := L114\<rparr> else ?ws1 ! k) [0..<length ?ws1]
     = map (\<lambda>k. if k = fst ke then (ws ! k)\<lparr>pc := L111\<rparr>
               else if k \<in> fst ` set rest then (ws ! k)\<lparr>pc := L114\<rparr> else ws ! k)
         [0..<length ws]"
    using notin k(1) by (auto simp: nth_list_update)
  ultimately show ?thesis using st by (simp add: run_def)
qed

text \<open>
  Claim C1.  In every interleaving of any number of workers started on any filesystem,
  and for every stage directory \<open>d\<close>, the workers standing in the builder branch of \<open>d\<close>
  and the calls of \<open>make_avg\<close> on \<open>d\<close> made so far number at most one in total.  And when
  workers race at line 106 for the marker \<open>avg_started\<close> of \<open>d\<close>, which does not exist
  yet, the one scheduled first creates it and enters the builder branch, and every other
  racer finds that it exists and goes to the sleep of line 114.
\<close>

theorem election_at_most_one_builder:
  "elected_total d (run c sched (start fs0 n)) \<le> 1 \<and>
   (\<not> present fs (d @ [''avg_started'']) \<and> is_dir fs d \<and> distinct (map fst (ke # rest)) \<and>
    (\<forall>ke'\<in>set (ke # rest). fst ke' < length ws \<and> fault (snd ke') = None
           \<and> pc (ws ! fst ke') = L106 \<and> stage_dir (ws ! fst ke') = d)
    \<longrightarrow> run c (ke # rest) (fs, ws) =
     (fs @ [(d @ [''avg_started''], File)],
      map (\<lambda>k. if k = fst ke then (ws ! k)\<lparr>pc := L111\<rparr>
               else if k \<in> fst ` set rest then (ws ! k)\<lparr>pc := L114\<rparr> else ws ! k)
        [0..<length ws]))"
  using elected_total_le_1 race_run by blast

theorem election_at_most_one_builder_witness:
  "elected_total [''out'', ''s0''] (run demo_env (replicate 30 (1, ok) @ replicate 30 (0, ok))
      (start demo_fs 3)) \<le> 1 \<and>
   run demo_env [(1, ok), (0, ok), (2, ok)]
     ([([''out''], Dir), ([''out'', ''s0''], Dir)],
      [at_stage0 L106 None, at_stage0 L106 None, at_stage0 L106 None]) =
     ([([''out''], Dir), ([''out'', ''s0''], Dir), ([''out'', ''s0'', ''avg_started''], File)],
      [at_stage0 L114 None, at_stage0 L111 None, at_stage0 L114 None])"
  using election_at_most_one_builder [of "[''out'', ''s0'']" demo_env
      "replicate 30 (1, ok) @ replicate 30 (0, ok)" demo_fs 3
      "[([''out''], Dir), ([''out'', ''s0''], Dir)]" "(1, ok)" "[(0, ok), (2, ok)]"
      "[at_stage0 L106 None, at_stage0 L106 None, at_stage0 L106 None]"]
  by (simp add: present_def is_dir_def lookup_def ok_def at_stage0_def upt_rec nth_Cons')

section \<open>Directory listings\<close>

lemma is_dir_in_keys: "is_dir fs p \<Longrightarrow> p \<noteq> [] \<Longrightarrow> p \<in> fst ` set fs"
  by (auto simp: is_dir_def lookup_def dest: map_of_SomeD intro: rev_image_eqI)

lemma iterdir_Inr_iff: "(\<exists>ds. iterdir fs d = Inr ds) \<longleftrightarrow> is_dir fs d"
  by (auto simp: iterdir_def is_dir_def split: option.splits node.splits)

lemma iterdir_set:
  "iterdir fs d = Inr ds \<Longrightarrow> set ds = {p \<in> fst ` set fs. p \<noteq> [] \<and> butlast p = d}"
  by (force simp: iterdir_def split: option.splits node.splits)

lemma iterdir_distinct: "iterdir fs d = Inr ds \<Longrightarrow> distinct ds"
  by (auto simp: iterdir_def split: option.splits node.splits)

lemma child_iff: "p \<noteq> [] \<and> butlast p = d \<longleftrightarrow> (\<exists>n. p = d @ [n])"
  by (metis append_butlast_last_id butlast_snoc snoc_eq_iff_butlast)

lemma iterdir_subdirs:
  assumes "iterdir fs d = Inr ds"
  shows "{p \<in> set ds. is_dir fs p} = {d @ [n] | n. is_dir fs (d @ [n])}"
proof -
  have "p \<in> set ds \<and> is_dir fs p \<longleftrightarrow> (\<exists>n. p = d @ [n] \<and> is_dir fs (d @ [n]))" for p
    using iterdir_set [OF assms] child_iff [of p d] is_dir_in_keys [of fs p]
    by auto
  then show ?thesis by blast
qed

lemma set_avg_inputs:
  "set (avg_inputs fs ds) = (\<lambda>p. p @ [last p @ ''.nrrd'']) ` {p \<in> set ds. is_dir fs p}"
  by (induction ds) auto

lemma distinct_avg_inputs: "distinct ds \<Longrightarrow> distinct (avg_inputs fs ds)"
  by (induction ds) (auto simp: set_avg_inputs)

lemma make_avg_paths_set:
  assumes "make_avg_paths fs root_dir = Inr paths"
  shows "set paths = {root_dir @ [n, n @ ''.nrrd''] | n. is_dir fs (root_dir @ [n])}"
proof -
  from assms obtain ds where ds: "iterdir fs root_dir = Inr ds" and p: "paths = avg_inputs fs ds"
    by (auto simp: make_avg_paths_def split: sum.splits)
  have "set paths = (\<lambda>p. p @ [last p @ ''.nrrd'']) ` {root_dir @ [n] | n. is_dir fs (root_dir @ [n])}"
    by (simp only: p set_avg_inputs iterdir_subdirs [OF ds])
  then show ?thesis by force
qed


text \<open>
  Claim C10.  The input set of the average builder is decided by directory presence
  alone: on a stage directory, \<open>make_avg\<close> passes to \<open>common.average\<close> exactly one path
  \<open><d>/<name of d>.nrrd\<close> for each immediate subdirectory \<open>d\<close>, whatever that
  subdirectory holds (no completion marker, no volume) and skipping every entry that is
  no directory; when the root is no directory it raises before averaging.
\<close>

theorem make_avg_inputs_by_directory_presence:
  "(is_dir fs root_dir \<longrightarrow>
      (\<exists>paths. make_avg_paths fs root_dir = Inr paths \<and> distinct paths \<and>
         set paths = {root_dir @ [n, n @ ''.nrrd''] | n. is_dir fs (root_dir @ [n])})) \<and>
   (\<not> is_dir fs root_dir \<longrightarrow>
      (\<exists>e. make_avg_paths fs root_dir = Inl e \<and> make_avg average fs root_dir out_path = Inl e))"
proof (intro conjI impI)
  assume "is_dir fs root_dir"
  then obtain ds where ds: "iterdir fs root_dir = Inr ds"
    using iterdir_Inr_iff by blast
  then have p: "make_avg_paths fs root_dir = Inr (avg_inputs fs ds)"
    by (simp add: make_avg_paths_def)
  moreover have "distinct (avg_inputs fs ds)"
    using ds by (blast intro: distinct_avg_inputs iterdir_distinct)
  ultimately show "\<exists>paths. make_avg_paths fs root_dir = Inr paths \<and> distinct paths \<and>
         set paths = {root_dir @ [n, n @ ''.nrrd''] | n. is_dir fs (root_dir @ [n])}"
    using make_avg_paths_set [OF p] by blast
next
  assume "\<not> is_dir fs root_dir"
  then have "\<not> (\<exists>ds. iterdir fs root_dir = Inr ds)"
    by (simp add: iterdir_Inr_iff)
  then obtain e where "iterdir fs root_dir = Inl e"
    by (cases "iterdir fs root_dir") auto
  then show "\<exists>e. make_avg_paths fs root_dir = Inl e \<and> make_avg average fs root_dir out_path = Inl e"
    by (simp add: make_avg_paths_def make_avg_def)
qed

theorem make_avg_inputs_by_directory_presence_witness:
  "is_dir stray_fs [''out'', ''s0''] \<and>
   \<not> present stray_fs [''out'', ''s0'', ''stray'', ''spec_done''] \<and>
   \<not> present stray_fs [''out'', ''s0'', ''stray'', ''stray.nrrd''] \<and>
   make_avg_paths stray_fs [''out'', ''s0''] =
     Inr [[''out'', ''s0'', ''a'', ''a.nrrd''], [''out'', ''s0'', ''stray'', ''stray.nrrd'']] \<and>
   set [[''out'', ''s0'', ''a'', ''a.nrrd''], [''out'', ''s0'', ''stray'', ''stray.nrrd'']] =
     {[''out'', ''s0''] @ [n, n @ ''.nrrd''] | n. is_dir stray_fs ([''out'', ''s0''] @ [n])} \<and>
   \<not> is_dir stray_fs [''out'', ''missing''] \<and>
   make_avg Succeeds stray_fs [''out'', ''missing''] [''out'', ''averages'', ''s0.nrrd''] =
     Inl FileNotFoundError"
proof -
  have d: "is_dir stray_fs [''out'', ''s0'']"
    by (simp add: is_dir_def lookup_def stray_fs_def)
  have p: "make_avg_paths stray_fs [''out'', ''s0''] =
     Inr [[''out'', ''s0'', ''a'', ''a.nrrd''], [''out'', ''s0'', ''stray'', ''stray.nrrd'']]"
    by (simp add: make_avg_paths_def iterdir_def is_dir_def lookup_def stray_fs_def)
  have m: "\<not> is_dir stray_fs [''out'', ''missing'']"
    by (simp add: is_dir_def lookup_def stray_fs_def)
  have e: "make_avg Succeeds stray_fs [''out'', ''missing''] [''out'', ''averages'', ''s0.nrrd'']
      = Inl FileNotFoundError"
    by (simp add: make_avg_def make_avg_paths_def iterdir_def lookup_def stray_fs_def)
  have a: "\<not> present stray_fs [''out'', ''s0'', ''stray'', ''spec_done''] \<and>
     \<not> present stray_fs [''out'', ''s0'', ''stray'', ''stray.nrrd'']"
    by (simp add: present_def lookup_def stray_fs_def)
  from make_avg_inputs_by_directory_presence [of stray_fs "[''out'', ''s0'']"] d p
  have "set [[''out'', ''s0'', ''a'', ''a.nrrd''], [''out'', ''s0'', ''stray'', ''stray.nrrd'']] =
     {[''out'', ''s0''] @ [n, n @ ''.nrrd''] | n. is_dir stray_fs ([''out'', ''s0''] @ [n])}"
    by auto
  with d p m e a show ?thesis by blast
qed

section \<open>Invariants of interleaved runs\<close>

lemma run_invariant:
  assumes step: "\<And>ev fs w fs' w'. Q fs \<Longrightarrow> P fs w \<Longrightarrow> wstep c ev fs w = (fs', w') \<Longrightarrow> Q fs' \<and> P fs' w'"
    and stable: "\<And>fs fs' w. P fs w \<Longrightarrow> fs_le fs fs' \<Longrightarrow> Q fs' \<Longrightarrow> P fs' w"
    and init: "Q fs" "\<forall>w\<in>set ws. P fs w"
  shows "Q (fst (run c sched (fs, ws))) \<and> (\<forall>w\<in>set (snd (run c sched (fs, ws))). P (fst (run c sched (fs, ws))) w)"
  using init unfolding run_def
proof (induction sched arbitrary: fs ws)
  case Nil
  then show ?case by simp
next
  case (Cons ke sched)
  show ?case
  proof (cases "fst ke < length ws")
    case False
    then have "sys_step c ke (fs, ws) = (fs, ws)" by (simp add: sys_step_def)
    with Cons.IH [OF Cons.prems] show ?thesis by simp
  next
    case True
    obtain fs' w' where st: "wstep c (snd ke) fs (ws ! fst ke) = (fs', w')"
      by (cases "wstep c (snd ke) fs (ws ! fst ke)")
    from True Cons.prems have "P fs (ws ! fst ke)" by simp
    from step [OF Cons.prems(1) this st] have q: "Q fs'" and p: "P fs' w'" by simp_all
    have le: "fs_le fs fs'" using st by (rule wstep_le)
    have "\<forall>w\<in>set (ws[fst ke := w']). P fs' w"
    proof
      fix w assume "w \<in> set (ws[fst ke := w'])"
      then have "w = w' \<or> w \<in> set ws"
        using set_update_subset_insert [of ws "fst ke" w'] by auto
      then show "P fs' w"
        using p Cons.prems(2) stable [OF _ le q] by blast
    qed
    from Cons.IH [OF q this] True st show ?thesis by (simp add: sys_step_def)
  qed
qed

lemma shape_L58:
  assumes "wstep c ev fs w = (fs', w')" "pc w = L58"
  shows "(mkdir fs (avg_dir c) = Inr fs' \<and> w' = w\<lparr>pc := L71, idx := 0, fixed_vol := fixed_volume c\<rparr>)
       \<or> (fs' = fs \<and> (\<exists>e. w' = w\<lparr>pc := Raised e\<rparr>))"
  using assms by (auto simp: wstep_def step_L58_def raise_def split: sum.splits)

lemma shape_L71:
  assumes "wstep c ev fs w = (fs', w')" "pc w = L71"
  shows "(length (stages c) \<le> idx w \<and> fs' = fs \<and> w' = w\<lparr>pc := Returned\<rparr>)
       \<or> (idx w < length (stages c) \<and>
           (\<exists>d. map_of (stage_dirs c) (stages c ! idx w) = Some d \<and> mkdir_parents fs d = Inr fs' \<and>
                w' = w\<lparr>pc := L86, stage_id := stages c ! idx w, stage_dir := d\<rparr>))
       \<or> (fs' = fs \<and> (\<exists>e. w' = w\<lparr>pc := Raised e\<rparr>))"
  using assms
  by (auto simp: wstep_def step_L71_def raise_def split: sum.splits option.splits if_splits)

lemma shape_L86:
  assumes "wstep c ev fs w = (fs', w')" "pc w = L86"
  shows "fs' = fs \<and>
       ((\<exists>ns. not_started c fs (stage_dir w) = Inr ns \<and> ns \<noteq> [] \<and>
            w' = w\<lparr>pc := L117, next_spec_id := Some (ns ! (pick ev mod length ns))\<rparr>)
        \<or> (not_started c fs (stage_dir w) = Inr [] \<and> w' = w\<lparr>pc := L94\<rparr>)
        \<or> (\<exists>e. w' = w\<lparr>pc := Raised e\<rparr>))"
  using assms
  by (auto simp: wstep_def step_L86_def raise_def split: sum.splits if_splits)

lemma shape_L94:
  assumes "wstep c ev fs w = (fs', w')" "pc w = L94"
  shows "fs' = fs \<and>
       ((check_stage_done fs (stage_dir w) = Inr False \<and> w' = w\<lparr>pc := L94\<rparr>)
        \<or> (check_stage_done fs (stage_dir w) = Inr True \<and> w' = w\<lparr>pc := L99\<rparr>)
        \<or> (\<exists>e. w' = w\<lparr>pc := Raised e\<rparr>))"
  using assms
  by (auto simp: wstep_def step_L94_def raise_def split: sum.splits if_splits)

lemma shape_L99:
  assumes "wstep c ev fs w = (fs', w')" "pc w = L99"
  shows "fs' = fs \<and>
       ((is_file fs (stage_dir w @ [''avg_done'']) \<and> w' = w\<lparr>pc := L71, idx := Suc (idx w)\<rparr>)
        \<or> (\<not> is_file fs (stage_dir w @ [''avg_done'']) \<and> w' = w\<lparr>pc := L102\<rparr>))"
  using assms by (auto simp: wstep_def step_L99_def split: if_splits)

lemma shape_L102:
  assumes "wstep c ev fs w = (fs', w')" "pc w = L102"
  shows "fs' = fs \<and>
       ((is_file fs (stage_dir w @ [''avg_started'']) \<and> w' = w\<lparr>pc := L114\<rparr>)
        \<or> (\<not> is_file fs (stage_dir w @ [''avg_started'']) \<and> w' = w\<lparr>pc := L106\<rparr>))"
  using assms by (auto simp: wstep_def step_L102_def split: if_splits)

lemma shape_L106:
  assumes "wstep c ev fs w = (fs', w')" "pc w = L106"
  shows "(open_x (fault ev) fs (stage_dir w @ [''avg_started'']) = Inr fs' \<and> w' = w\<lparr>pc := L111\<rparr>)
       \<or> (fs' = fs \<and> open_x (fault ev) fs (stage_dir w @ [''avg_started'']) = Inl FileExistsError
            \<and> w' = w\<lparr>pc := L114\<rparr>)
       \<or> (fs' = fs \<and> (\<exists>e. e \<noteq> FileExistsError \<and>
             open_x (fault ev) fs (stage_dir w @ [''avg_started'']) = Inl e \<and> w' = w\<lparr>pc := Raised e\<rparr>))"
  using assms by (auto simp: wstep_def step_L106_def raise_def split: sum.splits if_splits)

lemma shape_L111:
  assumes "wstep c ev fs w = (fs', w')" "pc w = L111"
  shows "(make_avg (ext ev) fs (stage_dir w) (average_path c w) = Inr fs' \<and>
          w' = w\<lparr>calls := calls w @ [AvgCall (stage_dir w) (average_path c w)], pc := L112\<rparr>)
       \<or> (fs' = fs \<and>
           (\<exists>e. w' = w\<lparr>calls := calls w @ [AvgCall (stage_dir w) (average_path c w)], pc := Raised e\<rparr>))"
  using assms by (auto simp: wstep_def step_L111_def raise_def Let_def split: sum.splits)

lemma shape_L112:
  assumes "wstep c ev fs w = (fs', w')" "pc w = L112"
  shows "(open_x (fault ev) fs (stage_dir w @ [''avg_done'']) = Inr fs' \<and>
          w' = w\<lparr>pc := L71, idx := Suc (idx w)\<rparr>)
       \<or> (fs' = fs \<and> (\<exists>e. w' = w\<lparr>pc := Raised e\<rparr>))"
  using assms by (auto simp: wstep_def step_L112_def raise_def split: sum.splits)

lemma shape_L114:
  assumes "wstep c ev fs w = (fs', w')" "pc w = L114"
  shows "fs' = fs \<and> w' = w\<lparr>pc := L117\<rparr>"
  using assms by (auto simp: wstep_def step_L114_def)

lemma shape_L117:
  assumes "wstep c ev fs w = (fs', w')" "pc w = L117"
  shows "fs' = fs \<and>
       ((\<exists>s. next_spec_id w = Some s \<and> idx w = 0 \<and>
             w' = w\<lparr>pc := L126, moving := inputs_dir c @ [s @ ''.nrrd'']\<rparr>)
        \<or> (\<exists>s. next_spec_id w = Some s \<and> 0 < idx w \<and> idx w - 1 < length (stage_dirs c) \<and>
             w' = w\<lparr>pc := L126,
                    moving := snd (stage_dirs c ! (idx w - 1)) @ [s, s @ ''.nrrd''],
                    fixed_vol := avg_dir c @ [fst (stage_dirs c ! (idx w - 1)) @ ''.nrrd'']\<rparr>)
        \<or> (\<exists>e. w' = w\<lparr>pc := Raised e\<rparr>))"
  using assms
  by (auto simp: wstep_def step_L117_def raise_def split: option.splits if_splits)

lemma shape_L126:
  assumes "wstep c ev fs w = (fs', w')" "pc w = L126"
  shows "((fs' = fs \<and> is_file fs (elxparam_path c w) \<or>
           \<not> is_file fs (elxparam_path c w) \<and> write_file fs (elxparam_path c w) = Inr fs') \<and>
          w' = w\<lparr>pc := L148\<rparr>)
       \<or> (fs' = fs \<and> (\<exists>e. w' = w\<lparr>pc := Raised e\<rparr>))"
  using assms
  by (auto simp: wstep_def step_L126_def raise_def split: option.splits if_splits sum.splits)

lemma shape_L148:
  assumes "wstep c ev fs w = (fs', w')" "pc w = L148"
  shows "(\<exists>s r. next_spec_id w = Some s \<and> registrator_run (ext ev) fs (stage_dir w) s = (fs', r) \<and>
            ((r = None \<and>
              w' = w\<lparr>calls := calls w @ [RegCall (idx w) s (moving w) (fixed_vol w)], pc := L150\<rparr>)
             \<or> (\<exists>e. r = Some e \<and>
              w' = w\<lparr>calls := calls w @ [RegCall (idx w) s (moving w) (fixed_vol w)],
                     pc := Raised e\<rparr>)))
       \<or> (fs' = fs \<and> next_spec_id w = None \<and> (\<exists>e. w' = w\<lparr>pc := Raised e\<rparr>))"
  using assms
  by (auto simp: wstep_def step_L148_def raise_def Let_def split: option.splits prod.splits)

lemma shape_L150:
  assumes "wstep c ev fs w = (fs', w')" "pc w = L150"
  shows "(\<exists>s. next_spec_id w = Some s \<and>
            open_x (fault ev) fs (stage_dir w @ [s, ''spec_done'']) = Inr fs' \<and> w' = w\<lparr>pc := L86\<rparr>)
       \<or> (fs' = fs \<and> (\<exists>e. w' = w\<lparr>pc := Raised e\<rparr>))"
  using assms
  by (auto simp: wstep_def step_L150_def raise_def split: option.splits sum.splits)

lemma shape_halted:
  assumes "wstep c ev fs w = (fs', w')" "pc w = Returned \<or> pc w = Raised e"
  shows "fs' = fs \<and> w' = w"
  using assms by (auto simp: wstep_def)

section \<open>The chaining of fixed volumes\<close>

lemma stage_ok_step:
  assumes "wstep c ev fs w = (fs', w')" "stage_ok c w"
  shows "stage_ok c w'"
proof (cases "pc w")
  case L58 with shape_L58 [OF assms(1)] assms(2) show ?thesis by (auto simp: stage_ok_def)
next
  case L71 with shape_L71 [OF assms(1)] assms(2) show ?thesis by (auto simp: stage_ok_def)
next
  case L86 with shape_L86 [OF assms(1)] assms(2) show ?thesis by (auto simp: stage_ok_def)
next
  case L94 with shape_L94 [OF assms(1)] assms(2) show ?thesis by (auto simp: stage_ok_def)
next
  case L99 with shape_L99 [OF assms(1)] assms(2) show ?thesis by (auto simp: stage_ok_def)
next
  case L102 with shape_L102 [OF assms(1)] assms(2) show ?thesis by (auto simp: stage_ok_def)
next
  case L106 with shape_L106 [OF assms(1)] assms(2) show ?thesis by (auto simp: stage_ok_def)
next
  case L111 with shape_L111 [OF assms(1)] assms(2) show ?thesis by (auto simp: stage_ok_def)
next
  case L112 with shape_L112 [OF assms(1)] assms(2) show ?thesis by (auto simp: stage_ok_def)
next
  case L114 with shape_L114 [OF assms(1)] assms(2) show ?thesis by (auto simp: stage_ok_def)
next
  case L117 with shape_L117 [OF assms(1)] assms(2) show ?thesis by (auto simp: stage_ok_def)
next
  case L126 with shape_L126 [OF assms(1)] assms(2) show ?thesis by (auto simp: stage_ok_def)
next
  case L148 with shape_L148 [OF assms(1)] assms(2) show ?thesis by (auto simp: stage_ok_def)
next
  case L150 with shape_L150 [OF assms(1)] assms(2) show ?thesis by (auto simp: stage_ok_def)
next
  case Returned with shape_halted [OF assms(1)] assms(2) show ?thesis by auto
next
  case (Raised e) with shape_halted [OF assms(1)] assms(2) show ?thesis by auto
qed

lemma fixed0_step:
  assumes "wstep c ev fs w = (fs', w')" "fixed0 c w"
  shows "fixed0 c w'"
proof (cases "pc w")
  case L58 with shape_L58 [OF assms(1)] assms(2) show ?thesis by (auto simp: fixed0_def)
next
  case L71 with shape_L71 [OF assms(1)] assms(2) show ?thesis by (auto simp: fixed0_def)
next
  case L86 with shape_L86 [OF assms(1)] assms(2) show ?thesis by (auto simp: fixed0_def)
next
  case L94 with shape_L94 [OF assms(1)] assms(2) show ?thesis by (auto simp: fixed0_def)
next
  case L99 with shape_L99 [OF assms(1)] assms(2) show ?thesis by (auto simp: fixed0_def)
next
  case L102 with shape_L102 [OF assms(1)] assms(2) show ?thesis by (auto simp: fixed0_def)
next
  case L106 with shape_L106 [OF assms(1)] assms(2) show ?thesis by (auto simp: fixed0_def)
next
  case L111 with shape_L111 [OF assms(1)] assms(2) show ?thesis by (auto simp: fixed0_def)
next
  case L112 with shape_L112 [OF assms(1)] assms(2) show ?thesis by (auto simp: fixed0_def)
next
  case L114 with shape_L114 [OF assms(1)] assms(2) show ?thesis by (auto simp: fixed0_def)
next
  case L117 with shape_L117 [OF assms(1)] assms(2) show ?thesis by (auto simp: fixed0_def)
next
  case L126 with shape_L126 [OF assms(1)] assms(2) show ?thesis by (auto simp: fixed0_def)
next
  case L148 with shape_L148 [OF assms(1)] assms(2) show ?thesis by (auto simp: fixed0_def)
next
  case L150 with shape_L150 [OF assms(1)] assms(2) show ?thesis by (auto simp: fixed0_def)
next
  case Returned with shape_halted [OF assms(1)] assms(2) show ?thesis by auto
next
  case (Raised e) with shape_halted [OF assms(1)] assms(2) show ?thesis by auto
qed

lemma resolved_step:
  assumes "wstep c ev fs w = (fs', w')" "resolved c w" "fixed0 c w"
  shows "resolved c w'"
proof (cases "pc w")
  case L58 with shape_L58 [OF assms(1)] show ?thesis by (auto simp: resolved_def)
next
  case L71 with shape_L71 [OF assms(1)] show ?thesis by (auto simp: resolved_def)
next
  case L86 with shape_L86 [OF assms(1)] show ?thesis by (auto simp: resolved_def)
next
  case L94 with shape_L94 [OF assms(1)] show ?thesis by (auto simp: resolved_def)
next
  case L99 with shape_L99 [OF assms(1)] show ?thesis by (auto simp: resolved_def)
next
  case L102 with shape_L102 [OF assms(1)] show ?thesis by (auto simp: resolved_def)
next
  case L106 with shape_L106 [OF assms(1)] show ?thesis by (auto simp: resolved_def)
next
  case L111 with shape_L111 [OF assms(1)] show ?thesis by (auto simp: resolved_def)
next
  case L112 with shape_L112 [OF assms(1)] show ?thesis by (auto simp: resolved_def)
next
  case L114 with shape_L114 [OF assms(1)] show ?thesis by (auto simp: resolved_def)
next
  case L117 with shape_L117 [OF assms(1)] assms(3) show ?thesis
    by (auto simp: resolved_def fixed0_def moving_for_def fixed_for_def)
next
  case L126 with shape_L126 [OF assms(1)] assms(2) show ?thesis by (auto simp: resolved_def)
next
  case L148 with shape_L148 [OF assms(1)] show ?thesis by (auto simp: resolved_def)
next
  case L150 with shape_L150 [OF assms(1)] show ?thesis by (auto simp: resolved_def)
next
  case Returned with shape_halted [OF assms(1)] assms(2) show ?thesis by auto
next
  case (Raised e) with shape_halted [OF assms(1)] assms(2) show ?thesis by auto
qed

lemma calls_ok_step:
  assumes "wstep c ev fs w = (fs', w')" "\<forall>x\<in>set (calls w). call_ok c x"
    "resolved c w" "stage_ok c w"
  shows "\<forall>x\<in>set (calls w'). call_ok c x"
proof (cases "pc w")
  case L58 with shape_L58 [OF assms(1)] assms(2) show ?thesis by auto
next
  case L71 with shape_L71 [OF assms(1)] assms(2) show ?thesis by auto
next
  case L86 with shape_L86 [OF assms(1)] assms(2) show ?thesis by auto
next
  case L94 with shape_L94 [OF assms(1)] assms(2) show ?thesis by auto
next
  case L99 with shape_L99 [OF assms(1)] assms(2) show ?thesis by auto
next
  case L102 with shape_L102 [OF assms(1)] assms(2) show ?thesis by auto
next
  case L106 with shape_L106 [OF assms(1)] assms(2) show ?thesis by auto
next
  case L111
  with assms(4) have "call_ok c (AvgCall (stage_dir w) (average_path c w))"
    by (auto simp: stage_ok_def average_path_def)
  with L111 shape_L111 [OF assms(1)] assms(2) show ?thesis
    by (auto simp del: call_ok.simps)
next
  case L112 with shape_L112 [OF assms(1)] assms(2) show ?thesis by auto
next
  case L114 with shape_L114 [OF assms(1)] assms(2) show ?thesis by auto
next
  case L117 with shape_L117 [OF assms(1)] assms(2) show ?thesis by auto
next
  case L126 with shape_L126 [OF assms(1)] assms(2) show ?thesis by auto
next
  case L148
  with assms(3,4) have "\<forall>s. next_spec_id w = Some s \<longrightarrow>
      call_ok c (RegCall (idx w) s (moving w) (fixed_vol w))"
    by (auto simp: stage_ok_def resolved_def)
  with L148 shape_L148 [OF assms(1)] assms(2) show ?thesis
    by (auto simp del: call_ok.simps)
next
  case L150 with shape_L150 [OF assms(1)] assms(2) show ?thesis by auto
next
  case Returned with shape_halted [OF assms(1)] assms(2) show ?thesis by auto
next
  case (Raised e) with shape_halted [OF assms(1)] assms(2) show ?thesis by auto
qed

lemma chained_step:
  assumes "chained c w" "wstep c ev fs w = (fs', w')"
  shows "chained c w'"
proof -
  from assms(1) have a: "stage_ok c w" "fixed0 c w" "resolved c w"
    "\<forall>x\<in>set (calls w). call_ok c x"
    by (simp_all add: chained_def)
  show ?thesis
    unfolding chained_def
    using stage_ok_step [OF assms(2) a(1)] fixed0_step [OF assms(2) a(2)]
      resolved_step [OF assms(2) a(3) a(2)] calls_ok_step [OF assms(2) a(4) a(3) a(1)]
    by simp
qed

lemma chained_init: "chained c init_worker"
  by (simp add: chained_def stage_ok_def fixed0_def resolved_def init_worker_def)

lemma chained_run: "\<forall>w\<in>set (snd (run c sched (start fs n))). chained c w"
proof -
  have "True \<and> (\<forall>w\<in>set (snd (run c sched (fs, replicate n init_worker))).
      (\<lambda>fs w. chained c w) (fst (run c sched (fs, replicate n init_worker))) w)"
    by (rule run_invariant [where Q = "\<lambda>fs. True"]) (auto simp: chained_init intro: chained_step)
  then show ?thesis by (simp add: start_def)
qed

lemma map_of_nth:
  "distinct (map fst xs) \<Longrightarrow> i < length xs \<Longrightarrow> map_of xs (fst (xs ! i)) = Some (snd (xs ! i))"
  by (simp add: map_of_eq_Some_iff)

lemma call_ok_follows_chain:
  assumes "map fst (stage_dirs c) = stages c" "distinct (stages c)" "call_ok c x"
  shows "follows_chain c x"
proof (cases x)
  case (RegCall i s m f)
  show ?thesis
  proof (cases i)
    case 0
    with RegCall assms(3) show ?thesis by (simp add: moving_for_def fixed_for_def)
  next
    case (Suc j)
    with RegCall assms(3) have j: "j < length (stages c)" by simp
    with assms(1) have l: "j < length (stage_dirs c)" by (metis length_map)
    from assms(1) l have k: "fst (stage_dirs c ! j) = stages c ! j" by (metis nth_map)
    from assms(1,2) l have "map_of (stage_dirs c) (fst (stage_dirs c ! j)) = Some (snd (stage_dirs c ! j))"
      by (simp add: map_of_nth)
    with k RegCall Suc assms(3) show ?thesis by (simp add: moving_for_def fixed_for_def)
  qed
next
  case (AvgCall d out)
  with assms(3) show ?thesis by auto
qed

section \<open>Errors and races of a single step\<close>

lemma halted_run:
  assumes "\<forall>w\<in>set ws. pc w = Returned \<or> (\<exists>e. pc w = Raised e)"
  shows "run c sched (fs, ws) = (fs, ws)"
  unfolding run_def
proof (induction sched)
  case Nil
  show ?case by simp
next
  case (Cons ke sched)
  have "sys_step c ke (fs, ws) = (fs, ws)"
  proof (cases "fst ke < length ws")
    case True
    with assms have "pc (ws ! fst ke) = Returned \<or> (\<exists>e. pc (ws ! fst ke) = Raised e)" by simp
    then have "wstep c (snd ke) fs (ws ! fst ke) = (fs, ws ! fst ke)"
      by (auto simp: wstep_def)
    with True show ?thesis by (simp add: sys_step_def)
  next
    case False
    then show ?thesis by (simp add: sys_step_def)
  qed
  with Cons show ?case by simp
qed

lemma mkdir_is_file: "mkdir fs p = Inr fs' \<Longrightarrow> is_file fs' q = is_file fs q"
  by (auto simp: mkdir_def is_file_def lookup_append split: option.splits node.splits if_splits)


lemma not_started_set:
  assumes "not_started c fs d = Inr ns"
  shows "set ns = {s \<in> set (spec_ids c). \<not> is_dir fs (d @ [s])}"
proof -
  from assms obtain ds where ds: "iterdir fs d = Inr ds"
    and ns: "ns = filter (\<lambda>s. s \<notin> set (spec_stage_dirs fs ds)) (remdups (spec_ids c))"
    by (auto simp: not_started_def split: sum.splits)
  have "set (spec_stage_dirs fs ds) = last ` {p \<in> set ds. is_dir fs p}"
    by (simp add: spec_stage_dirs_def)
  also have "\<dots> = last ` {d @ [n] | n. is_dir fs (d @ [n])}"
    by (simp only: iterdir_subdirs [OF ds])
  also have "\<dots> = {n. is_dir fs (d @ [n])}"
    by force
  finally show ?thesis using ns by auto
qed

text \<open>
  Claim C8.  At the exclusive creation of \<open>avg_started\<close> (line 106) a \<open>FileExistsError\<close>,
  raised because the marker exists or by the operating system, is caught: the worker
  goes on to line 114 and the filesystem is untouched.  Every other error of that
  creation leaves the function as an exception, and the worker never moves again.
\<close>

theorem election_marker_errors:
  "pc w = L106 \<longrightarrow>
     (fault ev = None \<and> present fs (stage_dir w @ [''avg_started'']) \<or> fault ev = Some FileExistsError
        \<longrightarrow> wstep c ev fs w = (fs, w\<lparr>pc := L114\<rparr>)) \<and>
     (\<forall>e. e \<noteq> FileExistsError \<and>
          (fault ev = Some e \<or>
           fault ev = None \<and> open_x None fs (stage_dir w @ [''avg_started'']) = Inl e)
        \<longrightarrow> wstep c ev fs w = (fs, w\<lparr>pc := Raised e\<rparr>) \<and>
            (\<forall>sched fs'. run c sched (fs', [w\<lparr>pc := Raised e\<rparr>]) = (fs', [w\<lparr>pc := Raised e\<rparr>])))"
proof (intro impI conjI allI)
  assume "pc w = L106"
    and "fault ev = None \<and> present fs (stage_dir w @ [''avg_started'']) \<or> fault ev = Some FileExistsError"
  then show "wstep c ev fs w = (fs, w\<lparr>pc := L114\<rparr>)"
    by (auto simp: wstep_def step_L106_def open_x_def)
next
  fix e
  assume "pc w = L106"
    and "e \<noteq> FileExistsError \<and>
          (fault ev = Some e \<or>
           fault ev = None \<and> open_x None fs (stage_dir w @ [''avg_started'']) = Inl e)"
  then show "wstep c ev fs w = (fs, w\<lparr>pc := Raised e\<rparr>)"
    by (auto simp: wstep_def step_L106_def raise_def open_x_def)
next
  fix e sched fs'
  show "run c sched (fs', [w\<lparr>pc := Raised e\<rparr>]) = (fs', [w\<lparr>pc := Raised e\<rparr>])"
    by (rule halted_run) simp
qed

theorem election_marker_errors_witness:
  "pc (at_stage0 L106 None) = L106 \<and> fault ok = None \<and>
   present stray_fs [''out'', ''s0'', ''avg_started''] \<and>
   wstep demo_env ok stray_fs (at_stage0 L106 None) = (stray_fs, at_stage0 L114 None) \<and>
   fault io_error = Some OtherOSError \<and>
   wstep demo_env io_error stray_fs (at_stage0 L106 None) =
     (stray_fs, at_stage0 (Raised OtherOSError) None) \<and>
   run demo_env [(0, ok), (0, ok)] (stray_fs, [at_stage0 (Raised OtherOSError) None]) =
     (stray_fs, [at_stage0 (Raised OtherOSError) None])"
  using election_marker_errors [of "at_stage0 L106 None" ok stray_fs demo_env]
    election_marker_errors [of "at_stage0 L106 None" io_error stray_fs demo_env]
  by (simp add: at_stage0_def ok_def io_error_def present_def lookup_def stray_fs_def)

text \<open>
  Claim C5, as amended.  When two workers have both registered the same specimen and
  stand before the exclusive creation of its completion marker (line 150), the one that
  moves first creates the marker and returns to the work loop; the other one gets
  \<open>FileExistsError\<close>, which nothing catches, and leaves \<open>run_elastix_stage\<close>.  The
  filesystem holds exactly one entry for the marker afterwards.
\<close>

theorem racing_claim_second_worker_raises:
  assumes "pc w1 = L150" "pc w2 = L150" "stage_dir w1 = d" "stage_dir w2 = d"
    and "next_spec_id w1 = Some s" "next_spec_id w2 = Some s"
    and "is_dir fs (d @ [s])" "\<not> present fs (d @ [s, ''spec_done''])"
    and "fault e1 = None" "fault e2 = None"
  shows "run c [(0, e1), (1, e2)] (fs, [w1, w2]) =
           (fs @ [(d @ [s, ''spec_done''], File)],
            [w1\<lparr>pc := L86\<rparr>, w2\<lparr>pc := Raised FileExistsError\<rparr>]) \<and>
         run c [(1, e2), (0, e1)] (fs, [w1, w2]) =
           (fs @ [(d @ [s, ''spec_done''], File)],
            [w1\<lparr>pc := Raised FileExistsError\<rparr>, w2\<lparr>pc := L86\<rparr>]) \<and>
         length (filter (\<lambda>x. fst x = d @ [s, ''spec_done''])
                   (fs @ [(d @ [s, ''spec_done''], File)])) = 1"
proof -
  let ?m = "d @ [s, ''spec_done'']"
  let ?fs1 = "fs @ [(?m, File)]"
  have b: "butlast ?m = d @ [s]" by (simp add: butlast_append)
  have pr: "present ?fs1 ?m" by (simp add: present_def lookup_append)
  have s1: "wstep c e1 fs w1 = (?fs1, w1\<lparr>pc := L86\<rparr>)"
    using assms b by (simp add: wstep_def step_L150_def open_x_def)
  have s2: "wstep c e2 fs w2 = (?fs1, w2\<lparr>pc := L86\<rparr>)"
    using assms b by (simp add: wstep_def step_L150_def open_x_def)
  have l1: "wstep c e1 ?fs1 w1 = (?fs1, w1\<lparr>pc := Raised FileExistsError\<rparr>)"
    using assms pr by (simp add: wstep_def step_L150_def open_x_def raise_def)
  have l2: "wstep c e2 ?fs1 w2 = (?fs1, w2\<lparr>pc := Raised FileExistsError\<rparr>)"
    using assms pr by (simp add: wstep_def step_L150_def open_x_def raise_def)
  have "map_of fs ?m = None"
    using assms(8) by (simp add: present_def lookup_def)
  then have "?m \<notin> fst ` set fs" by (simp add: map_of_eq_None_iff)
  then have "filter (\<lambda>x. fst x = ?m) fs = []"
    by (force simp: filter_empty_conv)
  then have one: "length (filter (\<lambda>x. fst x = ?m) ?fs1) = 1" by simp
  show ?thesis
    using s1 s2 l1 l2 one by (simp add: run_def sys_step_def)
qed

theorem racing_claim_second_worker_raises_witness:
  "run demo_env [(0, ok), (1, ok)]
     (stray_fs, [at_stage0 L150 (Some ''stray''), at_stage0 L150 (Some ''stray'')]) =
     (stray_fs @ [([''out'', ''s0'', ''stray'', ''spec_done''], File)],
      [at_stage0 L86 (Some ''stray''), at_stage0 (Raised FileExistsError) (Some ''stray'')]) \<and>
   run demo_env [(1, ok), (0, ok)]
     (stray_fs, [at_stage0 L150 (Some ''stray''), at_stage0 L150 (Some ''stray'')]) =
     (stray_fs @ [([''out'', ''s0'', ''stray'', ''spec_done''], File)],
      [at_stage0 (Raised FileExistsError) (Some ''stray''), at_stage0 L86 (Some ''stray'')])"
  using racing_claim_second_worker_raises [of "at_stage0 L150 (Some ''stray'')"
      "at_stage0 L150 (Some ''stray'')" "[''out'', ''s0'']" "''stray''" stray_fs ok ok demo_env]
  by (simp add: at_stage0_def ok_def present_def is_dir_def lookup_def stray_fs_def)

text \<open>The claim C5 as it is written fails on a run from a fresh filesystem: two workers in
  lockstep both pick specimen \<open>a\<close>, both register it with success, and the second one to
  reach line 150 leaves the function with \<open>FileExistsError\<close>.\<close>

theorem racing_claim_counterexample:
  "map pc (snd (run demo_env (lockstep 6) (start demo_fs 2))) = [L150, L150] \<and>
   map next_spec_id (snd (run demo_env (lockstep 6) (start demo_fs 2))) = [Some ''a'', Some ''a''] \<and>
   map calls (snd (run demo_env (lockstep 6) (start demo_fs 2))) =
     [[RegCall 0 ''a'' [''in'', ''a.nrrd''] [''fixed.nrrd'']],
      [RegCall 0 ''a'' [''in'', ''a.nrrd''] [''fixed.nrrd'']]] \<and>
   map pc (snd (run demo_env (lockstep 7) (start demo_fs 2))) = [L86, Raised FileExistsError] \<and>
   is_file (fst (run demo_env (lockstep 7) (start demo_fs 2))) [''out'', ''s0'', ''a'', ''spec_done'']"
  by code_simp

text \<open>
  Claim C4 fails on the code.  Line 114 is the last statement of the branch for
  "all specimens are being processed", and nothing sends the worker back to the head of
  the loop: the next statement is line 117.  So a worker that finds \<open>avg_started\<close>
  present, or loses the creation race, sleeps and then registers the specimen it
  registered last once more and fails at line 150 on the completion marker that already
  exists; a worker that has registered nothing yet fails at line 117 on the unassigned
  \<open>next_spec_id\<close>.  Both runs below start from a fresh filesystem.
\<close>

theorem election_loser_falls_through:
  "wstep c ev fs (w\<lparr>pc := L114\<rparr>) = (fs, w\<lparr>pc := L117\<rparr>) \<and>
   map pc (snd (run demo_env loser_sched (start demo_fs 2))) = [L111, L102] \<and>
   not_started demo_env (fst (run demo_env loser_sched (start demo_fs 2))) [''out'', ''s0''] = Inr [] \<and>
   check_stage_done (fst (run demo_env loser_sched (start demo_fs 2))) [''out'', ''s0''] = Inr True \<and>
   is_file (fst (run demo_env loser_sched (start demo_fs 2))) [''out'', ''s0'', ''avg_started''] \<and>
   \<not> present (fst (run demo_env loser_sched (start demo_fs 2))) [''out'', ''s0'', ''avg_done''] \<and>
   map pc (snd (run demo_env (loser_sched @ replicate 4 (1, ok)) (start demo_fs 2))) = [L111, L148] \<and>
   map pc (snd (run demo_env (loser_sched @ replicate 6 (1, ok)) (start demo_fs 2))) =
     [L111, Raised FileExistsError] \<and>
   calls (snd (run demo_env (loser_sched @ replicate 6 (1, ok)) (start demo_fs 2)) ! 1) =
     [RegCall 0 ''c'' [''in'', ''c.nrrd''] [''fixed.nrrd''],
      RegCall 0 ''c'' [''in'', ''c.nrrd''] [''fixed.nrrd'']] \<and>
   map pc (snd (run demo_env late_sched (start demo_fs 2))) = [L111, L102] \<and>
   map pc (snd (run demo_env (late_sched @ replicate 3 (1, ok)) (start demo_fs 2))) =
     [L111, Raised UnboundLocalError]"
proof -
  have "wstep c ev fs (w\<lparr>pc := L114\<rparr>) = (fs, w\<lparr>pc := L117\<rparr>)"
    by (simp add: wstep_def step_L114_def)
  moreover have
   "map pc (snd (run demo_env loser_sched (start demo_fs 2))) = [L111, L102] \<and>
   not_started demo_env (fst (run demo_env loser_sched (start demo_fs 2))) [''out'', ''s0''] = Inr [] \<and>
   check_stage_done (fst (run demo_env loser_sched (start demo_fs 2))) [''out'', ''s0''] = Inr True \<and>
   is_file (fst (run demo_env loser_sched (start demo_fs 2))) [''out'', ''s0'', ''avg_started''] \<and>
   \<not> present (fst (run demo_env loser_sched (start demo_fs 2))) [''out'', ''s0'', ''avg_done'']"
    by code_simp
  moreover have
   "map pc (snd (run demo_env (loser_sched @ replicate 4 (1, ok)) (start demo_fs 2))) = [L111, L148] \<and>
   map pc (snd (run demo_env (loser_sched @ replicate 6 (1, ok)) (start demo_fs 2))) =
     [L111, Raised FileExistsError] \<and>
   calls (snd (run demo_env (loser_sched @ replicate 6 (1, ok)) (start demo_fs 2)) ! 1) =
     [RegCall 0 ''c'' [''in'', ''c.nrrd''] [''fixed.nrrd''],
      RegCall 0 ''c'' [''in'', ''c.nrrd''] [''fixed.nrrd'']]"
    by code_simp
  moreover have
   "map pc (snd (run demo_env late_sched (start demo_fs 2))) = [L111, L102] \<and>
   map pc (snd (run demo_env (late_sched @ replicate 3 (1, ok)) (start demo_fs 2))) =
     [L111, Raised UnboundLocalError]"
    by code_simp
  ultimately show ?thesis by blast
qed

section \<open>Leaving a stage\<close>

lemma length_run: "length (snd (run c sched (fs, ws))) = length ws"
  unfolding run_def
proof (induction sched arbitrary: fs ws)
  case Nil
  show ?case by simp
next
  case (Cons ke sched)
  obtain fs' ws' where s: "sys_step c ke (fs, ws) = (fs', ws')"
    by (cases "sys_step c ke (fs, ws)")
  then have "length ws' = length ws"
    by (auto simp: sys_step_def split: if_splits prod.splits)
  with Cons [of fs' ws'] s show ?case by simp
qed

lemma is_file_mono: "fs_le fs fs' \<Longrightarrow> is_file fs p \<Longrightarrow> is_file fs' p"
  by (simp add: fs_le_def is_file_def)

lemma is_dir_mono: "fs_le fs fs' \<Longrightarrow> is_dir fs p \<Longrightarrow> is_dir fs' p"
  by (simp add: fs_le_def is_dir_def)

lemma write_file_Inr: "write_file fs p = Inr fs' \<Longrightarrow> is_file fs' p"
  by (auto simp: write_file_def is_file_def lookup_append split: if_splits option.splits node.splits)

lemma make_avg_Inr: "make_avg a fs d out = Inr fs' \<Longrightarrow> is_file fs' out"
  by (auto simp: make_avg_def split: sum.splits ext_outcome.splits dest: write_file_Inr)

lemma done_before_mono: "fs_le fs fs' \<Longrightarrow> done_before c fs w \<Longrightarrow> done_before c fs' w"
  unfolding done_before_def by (blast intro: is_file_mono)

lemma fresh_ok_step:
  assumes "wstep c ev fs w = (fs', w')" "fresh_ok w"
  shows "fresh_ok w'"
proof (cases "pc w")
  case L58
  with shape_L58 [OF assms(1)] assms(2) show ?thesis
    by (auto simp: fresh_ok_def)
next
  case L71
  with shape_L71 [OF assms(1)] assms(2) show ?thesis
    by (auto simp: fresh_ok_def)
next
  case L86
  with shape_L86 [OF assms(1)] assms(2) show ?thesis
    by (auto simp: fresh_ok_def)
next
  case L94
  with shape_L94 [OF assms(1)] assms(2) show ?thesis
    by (auto simp: fresh_ok_def)
next
  case L99
  with shape_L99 [OF assms(1)] assms(2) show ?thesis
    by (auto simp: fresh_ok_def)
next
  case L102
  with shape_L102 [OF assms(1)] assms(2) show ?thesis
    by (auto simp: fresh_ok_def)
next
  case L106
  with shape_L106 [OF assms(1)] assms(2) show ?thesis
    by (auto simp: fresh_ok_def)
next
  case L111
  with shape_L111 [OF assms(1)] assms(2) show ?thesis
    by (auto simp: fresh_ok_def)
next
  case L112
  with shape_L112 [OF assms(1)] assms(2) show ?thesis
    by (auto simp: fresh_ok_def)
next
  case L114
  with shape_L114 [OF assms(1)] assms(2) show ?thesis
    by (auto simp: fresh_ok_def)
next
  case L117
  with shape_L117 [OF assms(1)] assms(2) show ?thesis
    by (auto simp: fresh_ok_def)
next
  case L126
  with shape_L126 [OF assms(1)] assms(2) show ?thesis
    by (auto simp: fresh_ok_def)
next
  case L148
  with shape_L148 [OF assms(1)] assms(2) show ?thesis
    by (auto simp: fresh_ok_def)
next
  case L150
  with shape_L150 [OF assms(1)] assms(2) show ?thesis
    by (auto simp: fresh_ok_def)
next
  case Returned
  with shape_halted [OF assms(1)] assms(2) show ?thesis by (auto simp: fresh_ok_def)
next
  case (Raised e)
  with shape_halted [OF assms(1)] assms(2) show ?thesis by (auto simp: fresh_ok_def)
qed

lemma calls_le_step:
  assumes "wstep c ev fs w = (fs', w')" "calls_le w" "fresh_ok w"
  shows "calls_le w'"
proof (cases "pc w")
  case L58
  with shape_L58 [OF assms(1)] assms(2,3) show ?thesis
    by (fastforce simp: calls_le_def fresh_ok_def)
next
  case L71
  with shape_L71 [OF assms(1)] assms(2,3) show ?thesis
    by (fastforce simp: calls_le_def fresh_ok_def)
next
  case L86
  with shape_L86 [OF assms(1)] assms(2,3) show ?thesis
    by (fastforce simp: calls_le_def fresh_ok_def)
next
  case L94
  with shape_L94 [OF assms(1)] assms(2,3) show ?thesis
    by (fastforce simp: calls_le_def fresh_ok_def)
next
  case L99
  with shape_L99 [OF assms(1)] assms(2,3) show ?thesis
    by (fastforce simp: calls_le_def fresh_ok_def)
next
  case L102
  with shape_L102 [OF assms(1)] assms(2,3) show ?thesis
    by (fastforce simp: calls_le_def fresh_ok_def)
next
  case L106
  with shape_L106 [OF assms(1)] assms(2,3) show ?thesis
    by (fastforce simp: calls_le_def fresh_ok_def)
next
  case L111
  with shape_L111 [OF assms(1)] assms(2,3) show ?thesis
    by (fastforce simp: calls_le_def fresh_ok_def)
next
  case L112
  with shape_L112 [OF assms(1)] assms(2,3) show ?thesis
    by (fastforce simp: calls_le_def fresh_ok_def)
next
  case L114
  with shape_L114 [OF assms(1)] assms(2,3) show ?thesis
    by (fastforce simp: calls_le_def fresh_ok_def)
next
  case L117
  with shape_L117 [OF assms(1)] assms(2,3) show ?thesis
    by (fastforce simp: calls_le_def fresh_ok_def)
next
  case L126
  with shape_L126 [OF assms(1)] assms(2,3) show ?thesis
    by (fastforce simp: calls_le_def fresh_ok_def)
next
  case L148
  with shape_L148 [OF assms(1)] assms(2,3) show ?thesis
    by (fastforce simp: calls_le_def fresh_ok_def)
next
  case L150
  with shape_L150 [OF assms(1)] assms(2,3) show ?thesis
    by (fastforce simp: calls_le_def fresh_ok_def)
next
  case Returned
  with shape_halted [OF assms(1)] assms(2,3) show ?thesis by (auto simp: calls_le_def fresh_ok_def)
next
  case (Raised e)
  with shape_halted [OF assms(1)] assms(2,3) show ?thesis by (auto simp: calls_le_def fresh_ok_def)
qed

lemma built_step:
  assumes "wstep c ev fs w = (fs', w')"
  shows "built c fs' w'"
proof (cases "pc w")
  case L58
  with shape_L58 [OF assms(1)]  show ?thesis
    by (auto simp: built_def)
next
  case L71
  with shape_L71 [OF assms(1)]  show ?thesis
    by (auto simp: built_def)
next
  case L86
  with shape_L86 [OF assms(1)]  show ?thesis
    by (auto simp: built_def)
next
  case L94
  with shape_L94 [OF assms(1)]  show ?thesis
    by (auto simp: built_def)
next
  case L99
  with shape_L99 [OF assms(1)]  show ?thesis
    by (auto simp: built_def)
next
  case L102
  with shape_L102 [OF assms(1)]  show ?thesis
    by (auto simp: built_def)
next
  case L106
  with shape_L106 [OF assms(1)]  show ?thesis
    by (auto simp: built_def)
next
  case L111
  with shape_L111 [OF assms(1)] show ?thesis
    by (auto simp: built_def average_path_def dest: make_avg_Inr)
next
  case L112
  with shape_L112 [OF assms(1)]  show ?thesis
    by (auto simp: built_def)
next
  case L114
  with shape_L114 [OF assms(1)]  show ?thesis
    by (auto simp: built_def)
next
  case L117
  with shape_L117 [OF assms(1)]  show ?thesis
    by (auto simp: built_def)
next
  case L126
  with shape_L126 [OF assms(1)]  show ?thesis
    by (auto simp: built_def)
next
  case L148
  with shape_L148 [OF assms(1)]  show ?thesis
    by (auto simp: built_def)
next
  case L150
  with shape_L150 [OF assms(1)]  show ?thesis
    by (auto simp: built_def)
next
  case Returned
  with shape_halted [OF assms(1)]  show ?thesis by (auto simp: built_def)
next
  case (Raised e)
  with shape_halted [OF assms(1)]  show ?thesis by (auto simp: built_def)
qed

lemma built_mono: "fs_le fs fs' \<Longrightarrow> built c fs w \<Longrightarrow> built c fs' w"
  unfolding built_def by (blast intro: is_file_mono)

lemma done_before_Suc:
  assumes "done_before c fs w" "stage_ok c w" "in_stage (pc w)"
    "is_file fs (stage_dir w @ [''avg_done''])"
  shows "done_before c fs (w\<lparr>pc := l, idx := Suc (idx w)\<rparr>)"
proof -
  from assms(2,3) have "map_of (stage_dirs c) (stages c ! idx w) = Some (stage_dir w)"
    by (auto simp: stage_ok_def)
  with assms(1,4) show ?thesis
    by (auto simp: done_before_def less_Suc_eq)
qed

lemma done_before_step:
  assumes "wstep c ev fs w = (fs', w')" "done_before c fs w" "stage_ok c w"
  shows "done_before c fs' w'"
proof -
  have le: "fs_le fs fs'" using assms(1) by (rule wstep_le)
  with assms(2) have d: "done_before c fs' w" by (blast intro: done_before_mono)
  show ?thesis
  proof (cases "pc w")
    case L58
    with shape_L58 [OF assms(1)] d show ?thesis
      by (auto simp: done_before_def)
  next
    case L71
    with shape_L71 [OF assms(1)] d show ?thesis
      by (auto simp: done_before_def)
  next
    case L86
    with shape_L86 [OF assms(1)] d show ?thesis
      by (auto simp: done_before_def)
  next
    case L94
    with shape_L94 [OF assms(1)] d show ?thesis
      by (auto simp: done_before_def)
  next
    case L99
    with shape_L99 [OF assms(1)] assms(2,3) done_before_Suc [of c fs w L71] show ?thesis
      by (auto simp: done_before_def)
  next
    case L102
    with shape_L102 [OF assms(1)] d show ?thesis
      by (auto simp: done_before_def)
  next
    case L106
    with shape_L106 [OF assms(1)] d show ?thesis
      by (auto simp: done_before_def)
  next
    case L111
    with shape_L111 [OF assms(1)] d show ?thesis
      by (auto simp: done_before_def)
  next
    case L112
    with shape_L112 [OF assms(1)] d assms(3) done_before_Suc [of c fs' w L71] show ?thesis
      by (auto simp: done_before_def dest: open_x_Inr)
  next
    case L114
    with shape_L114 [OF assms(1)] d show ?thesis
      by (auto simp: done_before_def)
  next
    case L117
    with shape_L117 [OF assms(1)] d show ?thesis
      by (auto simp: done_before_def)
  next
    case L126
    with shape_L126 [OF assms(1)] d show ?thesis
      by (auto simp: done_before_def)
  next
    case L148
    with shape_L148 [OF assms(1)] d show ?thesis
      by (auto simp: done_before_def)
  next
    case L150
    with shape_L150 [OF assms(1)] d show ?thesis
      by (auto simp: done_before_def)
  next
    case Returned
    with shape_halted [OF assms(1)] d show ?thesis by (auto simp: done_before_def)
  next
    case (Raised e)
    with shape_halted [OF assms(1)] d show ?thesis by (auto simp: done_before_def)
  qed
qed

lemma adv_init: "adv c fs init_worker"
  by (simp add: adv_def stage_ok_def fresh_ok_def calls_le_def built_def done_before_def
      init_worker_def)

lemma adv_step:
  assumes "adv c fs w" "wstep c ev fs w = (fs', w')"
  shows "adv c fs' w'"
proof -
  from assms(1) have a: "stage_ok c w" "fresh_ok w" "calls_le w" "done_before c fs w"
    by (simp_all add: adv_def)
  show ?thesis
    unfolding adv_def
    using stage_ok_step [OF assms(2) a(1)] fresh_ok_step [OF assms(2) a(2)]
      calls_le_step [OF assms(2) a(3) a(2)] built_step [OF assms(2)]
      done_before_step [OF assms(2) a(4) a(1)]
    by simp
qed

lemma adv_mono: "adv c fs w \<Longrightarrow> fs_le fs fs' \<Longrightarrow> adv c fs' w"
  unfolding adv_def by (blast intro: built_mono done_before_mono)

lemma adv_run:
  "\<forall>w\<in>set (snd (run c sched (start fs n))). adv c (fst (run c sched (start fs n))) w"
proof -
  have "True \<and> (\<forall>w\<in>set (snd (run c sched (fs, replicate n init_worker))).
      adv c (fst (run c sched (fs, replicate n init_worker))) w)"
    by (rule run_invariant [where Q = "\<lambda>fs. True" and P = "adv c"])
       (auto simp: adv_init intro: adv_step adv_mono)
  then show ?thesis by (simp add: start_def)
qed

lemma leave_step:
  assumes "wstep c ev fs w = (fs', w')" "idx w' \<noteq> idx w" "adv c fs w"
  shows "idx w' = Suc (idx w) \<and> pc w' = L71 \<and> is_file fs' (stage_dir w @ [''avg_done'']) \<and>
     (pc w = L99 \<and> is_file fs (stage_dir w @ [''avg_done'']) \<or>
      pc w = L112 \<and> \<not> present fs (stage_dir w @ [''avg_done'']) \<and>
        is_file fs (average_path c w) \<and>
        last (calls w) = AvgCall (stage_dir w) (average_path c w))"
proof (cases "pc w")
  case L58
  with shape_L58 [OF assms(1)] assms(2,3) show ?thesis
    by (auto simp: adv_def fresh_ok_def built_def)
next
  case L71
  with shape_L71 [OF assms(1)] assms(2,3) show ?thesis
    by (auto simp: adv_def fresh_ok_def built_def)
next
  case L86
  with shape_L86 [OF assms(1)] assms(2,3) show ?thesis
    by (auto simp: adv_def fresh_ok_def built_def)
next
  case L94
  with shape_L94 [OF assms(1)] assms(2,3) show ?thesis
    by (auto simp: adv_def fresh_ok_def built_def)
next
  case L99
  with shape_L99 [OF assms(1)] assms(2,3) show ?thesis
    by (auto simp: adv_def fresh_ok_def built_def)
next
  case L102
  with shape_L102 [OF assms(1)] assms(2,3) show ?thesis
    by (auto simp: adv_def fresh_ok_def built_def)
next
  case L106
  with shape_L106 [OF assms(1)] assms(2,3) show ?thesis
    by (auto simp: adv_def fresh_ok_def built_def)
next
  case L111
  with shape_L111 [OF assms(1)] assms(2,3) show ?thesis
    by (auto simp: adv_def fresh_ok_def built_def)
next
  case L112
  with shape_L112 [OF assms(1)] assms(2,3) show ?thesis
    by (auto simp: adv_def built_def dest: open_x_Inr)
next
  case L114
  with shape_L114 [OF assms(1)] assms(2,3) show ?thesis
    by (auto simp: adv_def fresh_ok_def built_def)
next
  case L117
  with shape_L117 [OF assms(1)] assms(2,3) show ?thesis
    by (auto simp: adv_def fresh_ok_def built_def)
next
  case L126
  with shape_L126 [OF assms(1)] assms(2,3) show ?thesis
    by (auto simp: adv_def fresh_ok_def built_def)
next
  case L148
  with shape_L148 [OF assms(1)] assms(2,3) show ?thesis
    by (auto simp: adv_def fresh_ok_def built_def)
next
  case L150
  with shape_L150 [OF assms(1)] assms(2,3) show ?thesis
    by (auto simp: adv_def fresh_ok_def built_def)
next
  case Returned
  with shape_halted [OF assms(1)] assms(2,3) show ?thesis by (auto simp: adv_def fresh_ok_def built_def)
next
  case (Raised e)
  with shape_halted [OF assms(1)] assms(2,3) show ?thesis by (auto simp: adv_def fresh_ok_def built_def)
qed

lemma open_x_files: "open_x flt fs p = Inr fs' \<Longrightarrow> is_file fs' q \<Longrightarrow> is_file fs q \<or> q = p"
  by (auto simp: open_x_def is_file_def lookup_append split: option.splits if_splits)

lemma write_file_files: "write_file fs p = Inr fs' \<Longrightarrow> is_file fs' q \<Longrightarrow> is_file fs q \<or> q = p"
  by (auto simp: write_file_def is_file_def lookup_append split: option.splits if_splits node.splits)

lemma mk_chain_is_file: "mk_chain fs qs = Inr fs' \<Longrightarrow> is_file fs' q = is_file fs q"
proof (induction qs arbitrary: fs)
  case Nil
  then show ?case by simp
next
  case (Cons a qs)
  show ?case
  proof (cases "lookup fs a")
    case None
    with Cons.prems have "mk_chain (fs @ [(a, Dir)]) qs = Inr fs'" by simp
    then have "is_file fs' q = is_file (fs @ [(a, Dir)]) q" by (rule Cons.IH)
    with None show ?thesis by (auto simp: is_file_def lookup_append)
  next
    case (Some n)
    with Cons.prems have "n = Dir" "mk_chain fs qs = Inr fs'"
      by (cases n; simp)+
    then show ?thesis by (simp add: Cons.IH)
  qed
qed

lemma mkdir_parents_is_file: "mkdir_parents fs p = Inr fs' \<Longrightarrow> is_file fs' q = is_file fs q"
  unfolding mkdir_parents_def by (rule mk_chain_is_file)

lemma mkdir_files: "mkdir fs p = Inr fs' \<Longrightarrow> is_file fs' q \<Longrightarrow> is_file fs q"
  by (simp add: mkdir_is_file)

lemma mkdir_parents_files: "mkdir_parents fs p = Inr fs' \<Longrightarrow> is_file fs' q \<Longrightarrow> is_file fs q"
  by (simp add: mkdir_parents_is_file)

lemma make_avg_files:
  "make_avg a fs d out = Inr fs' \<Longrightarrow> is_file fs' q \<Longrightarrow> is_file fs q \<or> q = out"
  by (auto simp: make_avg_def split: sum.splits ext_outcome.splits dest: write_file_files)

lemma registrator_run_files:
  "registrator_run a fs d s = (fs', r) \<Longrightarrow> is_file fs' q \<Longrightarrow>
     is_file fs q \<or> q = d @ [s, s @ ''.nrrd'']"
  by (auto simp: registrator_run_def split: sum.splits ext_outcome.splits
      dest: write_file_files mkdir_files)

lemma new_file:
  assumes "wstep c ev fs w = (fs', w')" "is_file fs' q" "\<not> is_file fs q"
  shows "(pc w = L106 \<and> q = stage_dir w @ [''avg_started'']) \<or>
         (pc w = L111 \<and> q = average_path c w) \<or>
         (pc w = L112 \<and> q = stage_dir w @ [''avg_done'']) \<or>
         (pc w = L126 \<and> q = elxparam_path c w) \<or>
         (pc w = L148 \<and> (\<exists>s. next_spec_id w = Some s \<and> q = stage_dir w @ [s, s @ ''.nrrd''])) \<or>
         (pc w = L150 \<and> (\<exists>s. next_spec_id w = Some s \<and> q = stage_dir w @ [s, ''spec_done'']))"
proof (cases "pc w")
  case L58
  with shape_L58 [OF assms(1)] assms(2,3) show ?thesis
    by (auto dest: mkdir_files)
next
  case L71
  with shape_L71 [OF assms(1)] assms(2,3) show ?thesis
    by (auto dest: mkdir_parents_files)
next
  case L86
  with shape_L86 [OF assms(1)] assms(2,3) show ?thesis
    by (auto)
next
  case L94
  with shape_L94 [OF assms(1)] assms(2,3) show ?thesis
    by (auto)
next
  case L99
  with shape_L99 [OF assms(1)] assms(2,3) show ?thesis
    by (auto)
next
  case L102
  with shape_L102 [OF assms(1)] assms(2,3) show ?thesis
    by (auto)
next
  case L106
  with shape_L106 [OF assms(1)] assms(2,3) show ?thesis
    by (auto dest: open_x_files)
next
  case L111
  with shape_L111 [OF assms(1)] assms(2,3) show ?thesis
    by (auto dest: make_avg_files)
next
  case L112
  with shape_L112 [OF assms(1)] assms(2,3) show ?thesis
    by (auto dest: open_x_files)
next
  case L114
  with shape_L114 [OF assms(1)] assms(2,3) show ?thesis
    by (auto)
next
  case L117
  with shape_L117 [OF assms(1)] assms(2,3) show ?thesis
    by (auto)
next
  case L126
  with shape_L126 [OF assms(1)] assms(2,3) show ?thesis
    by (auto dest: write_file_files)
next
  case L148
  with shape_L148 [OF assms(1)] assms(2,3) show ?thesis
    by (auto dest: registrator_run_files)
next
  case L150
  with shape_L150 [OF assms(1)] assms(2,3) show ?thesis
    by (auto dest: open_x_files)
next
  case Returned
  with shape_halted [OF assms(1)] assms(2,3) show ?thesis by auto
next
  case (Raised e)
  with shape_halted [OF assms(1)] assms(2,3) show ?thesis by auto
qed

lemma nrrd_neq:
  "x @ ''.nrrd'' \<noteq> ''avg_done''" "x @ ''.nrrd'' \<noteq> ''spec_done''"
proof -
  have l: "last (x @ ''.nrrd'') = CHR ''d''" by simp
  show "x @ ''.nrrd'' \<noteq> ''avg_done''"
  proof
    assume "x @ ''.nrrd'' = ''avg_done''"
    then have "last (x @ ''.nrrd'') = last ''avg_done''" by (rule arg_cong)
    with l show False by simp
  qed
  show "x @ ''.nrrd'' \<noteq> ''spec_done''"
  proof
    assume "x @ ''.nrrd'' = ''spec_done''"
    then have "last (x @ ''.nrrd'') = last ''spec_done''" by (rule arg_cong)
    with l show False by simp
  qed
qed

lemma txt_neq:
  "p @ x @ ''.txt'' \<noteq> ''avg_done''" "p @ x @ ''.txt'' \<noteq> ''spec_done''"
proof -
  have l: "last (p @ x @ ''.txt'') = CHR ''t''" by simp
  show "p @ x @ ''.txt'' \<noteq> ''avg_done''"
  proof
    assume "p @ x @ ''.txt'' = ''avg_done''"
    then have "last (p @ x @ ''.txt'') = last ''avg_done''" by (rule arg_cong)
    with l show False by simp
  qed
  show "p @ x @ ''.txt'' \<noteq> ''spec_done''"
  proof
    assume "p @ x @ ''.txt'' = ''spec_done''"
    then have "last (p @ x @ ''.txt'') = last ''spec_done''" by (rule arg_cong)
    with l show False by simp
  qed
qed

lemma map_of_inj:
  assumes "distinct (map snd xs)" "map_of xs a = Some d" "map_of xs b = Some d"
  shows "a = b"
proof -
  from assms(2,3) have "(a, d) \<in> set xs" "(b, d) \<in> set xs"
    by (auto dest: map_of_SomeD)
  moreover from assms(1) have "inj_on snd (set xs)" by (simp add: distinct_map)
  ultimately have "(a, d) = (b, d)"
    using inj_onD [of snd "set xs" "(a, d)" "(b, d)"] by simp
  then show ?thesis by simp
qed

lemma snoc2_eq: "d @ [a] = e @ [s, t] \<longleftrightarrow> d = e @ [s] \<and> a = t"
proof -
  have "e @ [s, t] = (e @ [s]) @ [t]" by simp
  then show ?thesis by (simp only: append1_eq_conv)
qed

lemma new_avg_done:
  assumes "wstep c ev fs w = (fs', w')" "is_file fs' (d @ [''avg_done''])"
    "\<not> is_file fs (d @ [''avg_done''])"
  shows "pc w = L112 \<and> d = stage_dir w"
proof -
  note n = new_file [OF assms]
  have 1: "d @ [''avg_done''] \<noteq> stage_dir w @ [''avg_started'']" by simp
  have 2: "d @ [''avg_done''] \<noteq> average_path c w"
    using nrrd_neq(1) [of "stage_id w"] by (auto simp: average_path_def avg_dir_def)
  have 3: "d @ [''avg_done''] \<noteq> elxparam_path c w"
    using txt_neq(1) [of "ELX_PARAM_PREFIX c" "stage_id w"] by (auto simp: elxparam_path_def)
  have 4: "d @ [''avg_done''] \<noteq> stage_dir w @ [s, s @ ''.nrrd'']" for s
    using nrrd_neq(1) [of s] by (auto simp: snoc2_eq)
  have 5: "d @ [''avg_done''] \<noteq> stage_dir w @ [s, ''spec_done'']" for s
    by (simp add: snoc2_eq)
  from n 1 2 3 4 5 show ?thesis by auto
qed

lemma averaged_step:
  assumes "wstep c ev fs w = (fs', w')" "averaged c fs" "adv c fs w"
    "distinct (map snd (stage_dirs c))"
  shows "averaged c fs'"
  unfolding averaged_def
proof (intro allI impI)
  fix sid d
  assume a: "map_of (stage_dirs c) sid = Some d \<and> is_file fs' (d @ [''avg_done''])"
  have le: "fs_le fs fs'" using assms(1) by (rule wstep_le)
  show "is_file fs' (avg_dir c @ [sid @ ''.nrrd''])"
  proof (cases "is_file fs (d @ [''avg_done''])")
    case True
    with a assms(2) have "is_file fs (avg_dir c @ [sid @ ''.nrrd''])"
      unfolding averaged_def by blast
    with le show ?thesis by (rule is_file_mono)
  next
    case False
    with a assms(1) have p: "pc w = L112 \<and> d = stage_dir w"
      by (blast dest: new_avg_done)
    with assms(3) have m: "map_of (stage_dirs c) (stage_id w) = Some d"
      and f: "is_file fs (average_path c w)"
      by (auto simp: adv_def stage_ok_def built_def)
    from assms(4) m a have "stage_id w = sid" by (blast intro: map_of_inj)
    with f have "is_file fs (avg_dir c @ [sid @ ''.nrrd''])" by (simp add: average_path_def)
    with le show ?thesis by (rule is_file_mono)
  qed
qed

lemma averaged_run:
  assumes "distinct (map snd (stage_dirs c))" "averaged c fs"
  shows "averaged c (fst (run c sched (start fs n)))"
proof -
  have "averaged c (fst (run c sched (fs, replicate n init_worker))) \<and>
     (\<forall>w\<in>set (snd (run c sched (fs, replicate n init_worker))).
        adv c (fst (run c sched (fs, replicate n init_worker))) w)"
  proof (rule run_invariant [where Q = "averaged c" and P = "adv c"])
    fix ev fs w fs' w'
    assume "averaged c fs" "adv c fs w" "wstep c ev fs w = (fs', w')"
    then show "averaged c fs' \<and> adv c fs' w'"
      using assms(1) by (blast intro: adv_step averaged_step)
  next
    fix fs fs' w
    assume "adv c fs w" "fs_le fs fs'"
    then show "adv c fs' w" by (rule adv_mono)
  next
    show "averaged c fs" by (rule assms(2))
  next
    show "\<forall>w\<in>set (replicate n init_worker). adv c fs w" by (simp add: adv_init)
  qed
  then show ?thesis by (simp add: start_def)
qed

lemma earlier_stages_done:
  assumes "w \<in> set (snd (run c sched (start fs0 n)))" "k < idx w"
  shows "\<exists>d. map_of (stage_dirs c) (stages c ! k) = Some d \<and>
          is_file (fst (run c sched (start fs0 n))) (d @ [''avg_done''])"
  using adv_run [of c sched fs0 n] assms by (auto simp: adv_def done_before_def)

lemma calls_in_reached_stages:
  assumes "w \<in> set (snd (run c sched (start fs0 n)))" "x \<in> set (calls w)"
  shows "call_stage x \<le> idx w"
  using adv_run [of c sched fs0 n] assms by (auto simp: adv_def calls_le_def)

lemma leaves_by_avg_done:
  assumes "w \<in> set (snd (run c sched (start fs0 n)))"
    "wstep c ev (fst (run c sched (start fs0 n))) w = (fs', w')" "idx w' \<noteq> idx w"
  shows "idx w' = Suc (idx w) \<and> pc w' = L71 \<and> is_file fs' (stage_dir w @ [''avg_done'']) \<and>
          (pc w = L99 \<and> is_file (fst (run c sched (start fs0 n))) (stage_dir w @ [''avg_done'']) \<or>
           pc w = L112 \<and> \<not> present (fst (run c sched (start fs0 n))) (stage_dir w @ [''avg_done'']) \<and>
             is_file (fst (run c sched (start fs0 n))) (average_path c w) \<and>
             last (calls w) = AvgCall (stage_dir w) (average_path c w))"
proof -
  from adv_run [of c sched fs0 n] assms(1)
  have "adv c (fst (run c sched (start fs0 n))) w" by blast
  with assms(2,3) show ?thesis by (rule leave_step)
qed

lemma earlier_stages_averaged:
  assumes "w \<in> set (snd (run c sched (start fs0 n)))" "k < idx w"
    "distinct (map snd (stage_dirs c))" "averaged c fs0"
  shows "is_file (fst (run c sched (start fs0 n))) (avg_dir c @ [stages c ! k @ ''.nrrd''])"
proof -
  from assms(3,4) have "averaged c (fst (run c sched (start fs0 n)))" by (rule averaged_run)
  with earlier_stages_done [OF assms(1,2)] show ?thesis unfolding averaged_def by blast
qed

text \<open>
  Claim C3.  In every state of every interleaving of workers started fresh, and for
  every worker: each stage before the one the worker is in has its \<open>avg_done\<close> marker;
  every registration the worker has made was made in a stage it had reached that way;
  a step that takes the worker out of the work loop of its stage is either line 99
  finding \<open>avg_done\<close> present or line 112 creating it, the worker having just written
  the average and made the call of \<open>make_avg\<close>; and when the stage directories are
  distinct and the run started on a filesystem in which every \<open>avg_done\<close> marker is
  accompanied by its average, each of these earlier stages has its average volume.
\<close>

theorem stage_left_only_with_avg_done:
  "\<forall>w\<in>set (snd (run c sched (start fs0 n))).
      (\<forall>k<idx w. \<exists>d. map_of (stage_dirs c) (stages c ! k) = Some d \<and>
          is_file (fst (run c sched (start fs0 n))) (d @ [''avg_done''])) \<and>
      (\<forall>x\<in>set (calls w). call_stage x \<le> idx w) \<and>
      (\<forall>ev fs' w'. wstep c ev (fst (run c sched (start fs0 n))) w = (fs', w') \<and> idx w' \<noteq> idx w \<longrightarrow>
          idx w' = Suc (idx w) \<and> pc w' = L71 \<and> is_file fs' (stage_dir w @ [''avg_done'']) \<and>
          (pc w = L99 \<and> is_file (fst (run c sched (start fs0 n))) (stage_dir w @ [''avg_done'']) \<or>
           pc w = L112 \<and> \<not> present (fst (run c sched (start fs0 n))) (stage_dir w @ [''avg_done'']) \<and>
             is_file (fst (run c sched (start fs0 n))) (average_path c w) \<and>
             last (calls w) = AvgCall (stage_dir w) (average_path c w))) \<and>
      (distinct (map snd (stage_dirs c)) \<and> averaged c fs0 \<longrightarrow>
         (\<forall>k<idx w. is_file (fst (run c sched (start fs0 n))) (avg_dir c @ [stages c ! k @ ''.nrrd''])))"
proof
  fix w assume w: "w \<in> set (snd (run c sched (start fs0 n)))"
  note a = earlier_stages_done [OF w] and b = calls_in_reached_stages [OF w] and cc = leaves_by_avg_done [OF w] and d = earlier_stages_averaged [OF w]
  show "(\<forall>k<idx w. \<exists>d. map_of (stage_dirs c) (stages c ! k) = Some d \<and>
          is_file (fst (run c sched (start fs0 n))) (d @ [''avg_done''])) \<and>
      (\<forall>x\<in>set (calls w). call_stage x \<le> idx w) \<and>
      (\<forall>ev fs' w'. wstep c ev (fst (run c sched (start fs0 n))) w = (fs', w') \<and> idx w' \<noteq> idx w \<longrightarrow>
          idx w' = Suc (idx w) \<and> pc w' = L71 \<and> is_file fs' (stage_dir w @ [''avg_done'']) \<and>
          (pc w = L99 \<and> is_file (fst (run c sched (start fs0 n))) (stage_dir w @ [''avg_done'']) \<or>
           pc w = L112 \<and> \<not> present (fst (run c sched (start fs0 n))) (stage_dir w @ [''avg_done'']) \<and>
             is_file (fst (run c sched (start fs0 n))) (average_path c w) \<and>
             last (calls w) = AvgCall (stage_dir w) (average_path c w))) \<and>
      (distinct (map snd (stage_dirs c)) \<and> averaged c fs0 \<longrightarrow>
         (\<forall>k<idx w. is_file (fst (run c sched (start fs0 n))) (avg_dir c @ [stages c ! k @ ''.nrrd''])))"
    using a b cc d by blast
qed

theorem stage_left_only_with_avg_done_witness:
  "distinct (map snd (stage_dirs demo_env)) \<and> averaged demo_env demo_fs \<and>
   pc (snd (solo 23) ! 0) = L112 \<and> idx (snd (solo 23) ! 0) = 0 \<and>
   wstep demo_env ok (fst (solo 23)) (snd (solo 23) ! 0) = (fst (solo 24), snd (solo 24) ! 0) \<and>
   idx (snd (solo 24) ! 0) = Suc 0 \<and> pc (snd (solo 24) ! 0) = L71 \<and>
   is_file (fst (solo 24)) (stage_dir (snd (solo 23) ! 0) @ [''avg_done'']) \<and>
   \<not> present (fst (solo 23)) (stage_dir (snd (solo 23) ! 0) @ [''avg_done'']) \<and>
   is_file (fst (solo 23)) (average_path demo_env (snd (solo 23) ! 0)) \<and>
   is_file (fst (solo 24)) (avg_dir demo_env @ [stages demo_env ! 0 @ ''.nrrd''])"
proof -
  have h: "distinct (map snd (stage_dirs demo_env))"
    by (simp add: demo_env_def)
  have "\<not> is_file demo_fs p" for p
    by (simp add: is_file_def lookup_def demo_fs_def)
  then have v: "averaged demo_env demo_fs"
    by (simp add: averaged_def)
  have e: "pc (snd (solo 23) ! 0) = L112" "idx (snd (solo 23) ! 0) = 0"
    "wstep demo_env ok (fst (solo 23)) (snd (solo 23) ! 0) = (fst (solo 24), snd (solo 24) ! 0)"
    "idx (snd (solo 24) ! 0) = Suc 0"
    by code_simp+
  have m: "snd (solo 23) ! 0 \<in> set (snd (solo 23))" "snd (solo 24) ! 0 \<in> set (snd (solo 24))"
    by (simp_all add: solo_def start_def length_run)
  from stage_left_only_with_avg_done [of demo_env "replicate 23 (0, ok)" demo_fs 1] m(1) e
  have s: "pc (snd (solo 24) ! 0) = L71 \<and>
      is_file (fst (solo 24)) (stage_dir (snd (solo 23) ! 0) @ [''avg_done'']) \<and>
      \<not> present (fst (solo 23)) (stage_dir (snd (solo 23) ! 0) @ [''avg_done'']) \<and>
      is_file (fst (solo 23)) (average_path demo_env (snd (solo 23) ! 0))"
    unfolding solo_def [symmetric] by fastforce
  from stage_left_only_with_avg_done [of demo_env "replicate 24 (0, ok)" demo_fs 1] m(2) e(4) h v
  have "is_file (fst (solo 24)) (avg_dir demo_env @ [stages demo_env ! 0 @ ''.nrrd''])"
    unfolding solo_def [symmetric] by fastforce
  with h v e s show ?thesis by blast
qed

section \<open>The average that is written\<close>

lemma make_avg_Succeeds: "make_avg a fs d out = Inr fs' \<Longrightarrow> a = Succeeds"
  by (auto simp: make_avg_def split: sum.splits ext_outcome.splits)

lemma make_avg_produces:
  assumes "is_dir fs d" "is_dir fs (butlast out)" "lookup fs out \<noteq> Some Dir"
  shows "\<exists>fs'. make_avg Succeeds fs d out = Inr fs'"
proof -
  from assms(1) obtain ds where "iterdir fs d = Inr ds"
    using iterdir_Inr_iff by blast
  with assms(2,3) show ?thesis
    by (auto simp: make_avg_def make_avg_paths_def write_file_def split: option.splits node.splits)
qed

lemma average_written_step:
  assumes "pc w = L111" "wstep c ev fs w = (fs', w')"
  shows "(pc w' = L112 \<and> ext ev = Succeeds \<and> is_file fs' (average_path c w) \<and>
            (\<forall>q. is_file fs' q \<longrightarrow> is_file fs q \<or> q = average_path c w)) \<or>
         (fs' = fs \<and> (\<exists>e. pc w' = Raised e))"
  using shape_L111 [OF assms(2,1)]
  by (auto dest: make_avg_Inr make_avg_files make_avg_Succeeds)

lemma average_produced_step:
  assumes "pc w = L111" "ext ev = Succeeds" "is_dir fs (stage_dir w)" "is_dir fs (avg_dir c)"
    "lookup fs (average_path c w) \<noteq> Some Dir"
  shows "pc (snd (wstep c ev fs w)) = L112"
proof -
  have "butlast (average_path c w) = avg_dir c"
    by (simp add: average_path_def butlast_append)
  with assms(3,4,5) obtain fs' where "make_avg Succeeds fs (stage_dir w) (average_path c w) = Inr fs'"
    using make_avg_produces [of fs "stage_dir w" "average_path c w"] by auto
  with assms(1,2) show ?thesis
    by (simp add: wstep_def step_L111_def Let_def)
qed

lemma average_path_stage:
  assumes "adv c fs w" "in_stage (pc w)"
  shows "average_path c w = avg_dir c @ [stages c ! idx w @ ''.nrrd'']"
  using assms by (auto simp: adv_def stage_ok_def average_path_def)


text \<open>
  Claim C9.  Let the keys of \<open>config.stage_dirs\<close> be the stage ids in the order of
  \<open>registration_stage_params\<close>.  Then in every interleaving of workers started fresh,
  every registration the workers make in stage 0 has the specimen's raw input
  \<open><inputs_dir>/<id>.nrrd\<close> as moving volume and the configured fixed volume as target;
  every registration in a stage \<open>j + 1\<close> has \<open><dir of stage j>/<id>/<id>.nrrd\<close> as moving
  volume and \<open>averages/<id of stage j>.nrrd\<close> as target; and every call of \<open>make_avg\<close> is
  on the directory of a stage with the output path \<open>averages/<id of that stage>.nrrd\<close>.
  The elected worker at line 111 either leaves the function with an error, the
  filesystem unchanged, or goes on to line 112 having written that file and no other;
  it does go on when \<open>common.average\<close> succeeds, the stage directory and \<open>averages\<close>
  exist and the output path is no directory.  A worker at line 112 has the average of
  its stage in \<open>averages/<stage_id>.nrrd\<close>.
\<close>

theorem fixed_volume_chaining:
  assumes "map fst (stage_dirs c) = stages c" "distinct (stages c)"
  shows "\<forall>w\<in>set (snd (run c sched (start fs n))).
     (\<forall>x\<in>set (calls w). follows_chain c x) \<and>
     (pc w = L111 \<longrightarrow>
        average_path c w = avg_dir c @ [stages c ! idx w @ ''.nrrd''] \<and>
        (\<forall>ev fs' w'. wstep c ev (fst (run c sched (start fs n))) w = (fs', w') \<longrightarrow>
           (pc w' = L112 \<and> ext ev = Succeeds \<and> is_file fs' (average_path c w) \<and>
              (\<forall>q. is_file fs' q \<longrightarrow>
                 is_file (fst (run c sched (start fs n))) q \<or> q = average_path c w)) \<or>
           (fs' = fst (run c sched (start fs n)) \<and> (\<exists>e. pc w' = Raised e))) \<and>
        (\<forall>ev. ext ev = Succeeds \<and> is_dir (fst (run c sched (start fs n))) (stage_dir w) \<and>
              is_dir (fst (run c sched (start fs n))) (avg_dir c) \<and>
              lookup (fst (run c sched (start fs n))) (average_path c w) \<noteq> Some Dir \<longrightarrow>
           pc (snd (wstep c ev (fst (run c sched (start fs n))) w)) = L112)) \<and>
     (pc w = L112 \<longrightarrow>
        is_file (fst (run c sched (start fs n))) (avg_dir c @ [stages c ! idx w @ ''.nrrd'']) \<and>
        last (calls w) = AvgCall (stage_dir w) (avg_dir c @ [stages c ! idx w @ ''.nrrd'']))"
proof
  fix w assume w: "w \<in> set (snd (run c sched (start fs n)))"
  let ?fs = "fst (run c sched (start fs n))"
  from w chained_run [of c sched fs n] have "\<forall>x\<in>set (calls w). call_ok c x"
    by (auto simp: chained_def)
  then have 1: "\<forall>x\<in>set (calls w). follows_chain c x"
    using call_ok_follows_chain [OF assms] by blast
  from w adv_run [of c sched fs n] have a: "adv c ?fs w" by blast
  have 2: "pc w = L111 \<longrightarrow>
        average_path c w = avg_dir c @ [stages c ! idx w @ ''.nrrd''] \<and>
        (\<forall>ev fs' w'. wstep c ev ?fs w = (fs', w') \<longrightarrow>
           (pc w' = L112 \<and> ext ev = Succeeds \<and> is_file fs' (average_path c w) \<and>
              (\<forall>q. is_file fs' q \<longrightarrow> is_file ?fs q \<or> q = average_path c w)) \<or>
           (fs' = ?fs \<and> (\<exists>e. pc w' = Raised e))) \<and>
        (\<forall>ev. ext ev = Succeeds \<and> is_dir ?fs (stage_dir w) \<and> is_dir ?fs (avg_dir c) \<and>
              lookup ?fs (average_path c w) \<noteq> Some Dir \<longrightarrow>
           pc (snd (wstep c ev ?fs w)) = L112)"
  proof
    assume p: "pc w = L111"
    with a have "average_path c w = avg_dir c @ [stages c ! idx w @ ''.nrrd'']"
      by (simp add: average_path_stage)
    moreover have "\<forall>ev fs' w'. wstep c ev ?fs w = (fs', w') \<longrightarrow>
           (pc w' = L112 \<and> ext ev = Succeeds \<and> is_file fs' (average_path c w) \<and>
              (\<forall>q. is_file fs' q \<longrightarrow> is_file ?fs q \<or> q = average_path c w)) \<or>
           (fs' = ?fs \<and> (\<exists>e. pc w' = Raised e))"
      using average_written_step [OF p] by blast
    moreover have "\<forall>ev. ext ev = Succeeds \<and> is_dir ?fs (stage_dir w) \<and> is_dir ?fs (avg_dir c) \<and>
              lookup ?fs (average_path c w) \<noteq> Some Dir \<longrightarrow>
           pc (snd (wstep c ev ?fs w)) = L112"
      using average_produced_step [OF p] by blast
    ultimately show "average_path c w = avg_dir c @ [stages c ! idx w @ ''.nrrd''] \<and>
        (\<forall>ev fs' w'. wstep c ev ?fs w = (fs', w') \<longrightarrow>
           (pc w' = L112 \<and> ext ev = Succeeds \<and> is_file fs' (average_path c w) \<and>
              (\<forall>q. is_file fs' q \<longrightarrow> is_file ?fs q \<or> q = average_path c w)) \<or>
           (fs' = ?fs \<and> (\<exists>e. pc w' = Raised e))) \<and>
        (\<forall>ev. ext ev = Succeeds \<and> is_dir ?fs (stage_dir w) \<and> is_dir ?fs (avg_dir c) \<and>
              lookup ?fs (average_path c w) \<noteq> Some Dir \<longrightarrow>
           pc (snd (wstep c ev ?fs w)) = L112)"
      by blast
  qed
  have 3: "pc w = L112 \<longrightarrow>
        is_file ?fs (avg_dir c @ [stages c ! idx w @ ''.nrrd'']) \<and>
        last (calls w) = AvgCall (stage_dir w) (avg_dir c @ [stages c ! idx w @ ''.nrrd''])"
  proof
    assume p: "pc w = L112"
    with a have "average_path c w = avg_dir c @ [stages c ! idx w @ ''.nrrd'']"
      by (simp add: average_path_stage)
    moreover from a p have "is_file ?fs (average_path c w)"
      "last (calls w) = AvgCall (stage_dir w) (average_path c w)"
      by (simp_all add: adv_def built_def)
    ultimately show "is_file ?fs (avg_dir c @ [stages c ! idx w @ ''.nrrd'']) \<and>
        last (calls w) = AvgCall (stage_dir w) (avg_dir c @ [stages c ! idx w @ ''.nrrd''])"
      by simp
  qed
  from 1 2 3 show "(\<forall>x\<in>set (calls w). follows_chain c x) \<and>
     (pc w = L111 \<longrightarrow>
        average_path c w = avg_dir c @ [stages c ! idx w @ ''.nrrd''] \<and>
        (\<forall>ev fs' w'. wstep c ev ?fs w = (fs', w') \<longrightarrow>
           (pc w' = L112 \<and> ext ev = Succeeds \<and> is_file fs' (average_path c w) \<and>
              (\<forall>q. is_file fs' q \<longrightarrow> is_file ?fs q \<or> q = average_path c w)) \<or>
           (fs' = ?fs \<and> (\<exists>e. pc w' = Raised e))) \<and>
        (\<forall>ev. ext ev = Succeeds \<and> is_dir ?fs (stage_dir w) \<and> is_dir ?fs (avg_dir c) \<and>
              lookup ?fs (average_path c w) \<noteq> Some Dir \<longrightarrow>
           pc (snd (wstep c ev ?fs w)) = L112)) \<and>
     (pc w = L112 \<longrightarrow>
        is_file ?fs (avg_dir c @ [stages c ! idx w @ ''.nrrd'']) \<and>
        last (calls w) = AvgCall (stage_dir w) (avg_dir c @ [stages c ! idx w @ ''.nrrd'']))"
    by blast
qed

theorem fixed_volume_chaining_witness:
  "map fst (stage_dirs demo_env) = stages demo_env \<and> distinct (stages demo_env) \<and>
   calls (snd (solo 50) ! 0) =
     [RegCall 0 ''a'' [''in'', ''a.nrrd''] [''fixed.nrrd''],
      RegCall 0 ''b'' [''in'', ''b.nrrd''] [''fixed.nrrd''],
      RegCall 0 ''c'' [''in'', ''c.nrrd''] [''fixed.nrrd''],
      AvgCall [''out'', ''s0''] [''out'', ''averages'', ''s0.nrrd''],
      RegCall 1 ''a'' [''out'', ''s0'', ''a'', ''a.nrrd''] [''out'', ''averages'', ''s0.nrrd''],
      RegCall 1 ''b'' [''out'', ''s0'', ''b'', ''b.nrrd''] [''out'', ''averages'', ''s0.nrrd''],
      RegCall 1 ''c'' [''out'', ''s0'', ''c'', ''c.nrrd''] [''out'', ''averages'', ''s0.nrrd''],
      AvgCall [''out'', ''s1''] [''out'', ''averages'', ''s1.nrrd'']] \<and>
   follows_chain demo_env
     (RegCall 1 ''a'' [''out'', ''s0'', ''a'', ''a.nrrd''] [''out'', ''averages'', ''s0.nrrd'']) \<and>
   pc (snd (solo 22) ! 0) = L111 \<and>
   average_path demo_env (snd (solo 22) ! 0) = [''out'', ''averages'', ''s0.nrrd''] \<and>
   \<not> is_file (fst (solo 22)) [''out'', ''averages'', ''s0.nrrd''] \<and>
   pc (snd (wstep demo_env ok (fst (solo 22)) (snd (solo 22) ! 0))) = L112 \<and>
   is_file (fst (wstep demo_env ok (fst (solo 22)) (snd (solo 22) ! 0)))
     (average_path demo_env (snd (solo 22) ! 0)) \<and>
   pc (snd (solo 23) ! 0) = L112 \<and>
   is_file (fst (solo 23)) (avg_dir demo_env @ [stages demo_env ! idx (snd (solo 23) ! 0) @ ''.nrrd''])"
proof -
  have h: "map fst (stage_dirs demo_env) = stages demo_env" "distinct (stages demo_env)"
    by (simp_all add: demo_env_def)
  have e: "calls (snd (solo 50) ! 0) =
     [RegCall 0 ''a'' [''in'', ''a.nrrd''] [''fixed.nrrd''],
      RegCall 0 ''b'' [''in'', ''b.nrrd''] [''fixed.nrrd''],
      RegCall 0 ''c'' [''in'', ''c.nrrd''] [''fixed.nrrd''],
      AvgCall [''out'', ''s0''] [''out'', ''averages'', ''s0.nrrd''],
      RegCall 1 ''a'' [''out'', ''s0'', ''a'', ''a.nrrd''] [''out'', ''averages'', ''s0.nrrd''],
      RegCall 1 ''b'' [''out'', ''s0'', ''b'', ''b.nrrd''] [''out'', ''averages'', ''s0.nrrd''],
      RegCall 1 ''c'' [''out'', ''s0'', ''c'', ''c.nrrd''] [''out'', ''averages'', ''s0.nrrd''],
      AvgCall [''out'', ''s1''] [''out'', ''averages'', ''s1.nrrd'']]"
    "pc (snd (solo 22) ! 0) = L111"
    "average_path demo_env (snd (solo 22) ! 0) = [''out'', ''averages'', ''s0.nrrd'']"
    "\<not> is_file (fst (solo 22)) [''out'', ''averages'', ''s0.nrrd'']"
    "pc (snd (wstep demo_env ok (fst (solo 22)) (snd (solo 22) ! 0))) = L112"
    "pc (snd (solo 23) ! 0) = L112"
    by code_simp+
  have m: "snd (solo 50) ! 0 \<in> set (snd (solo 50))" "snd (solo 22) ! 0 \<in> set (snd (solo 22))"
    "snd (solo 23) ! 0 \<in> set (snd (solo 23))"
    by (simp_all add: solo_def start_def length_run)
  have r: "RegCall 1 ''a'' [''out'', ''s0'', ''a'', ''a.nrrd''] [''out'', ''averages'', ''s0.nrrd'']
      \<in> set (calls (snd (solo 50) ! 0))"
    by (simp add: e(1))
  from fixed_volume_chaining [OF h, of "replicate 50 (0, ok)" demo_fs 1] m(1) r
  have a: "follows_chain demo_env
     (RegCall 1 ''a'' [''out'', ''s0'', ''a'', ''a.nrrd''] [''out'', ''averages'', ''s0.nrrd''])"
    unfolding solo_def [symmetric] by blast
  obtain fs' w' where st: "wstep demo_env ok (fst (solo 22)) (snd (solo 22) ! 0) = (fs', w')"
    by (cases "wstep demo_env ok (fst (solo 22)) (snd (solo 22) ! 0)")
  from fixed_volume_chaining [OF h, of "replicate 22 (0, ok)" demo_fs 1] m(2) e(2)
  have "\<forall>ev fs' w'. wstep demo_env ev (fst (solo 22)) (snd (solo 22) ! 0) = (fs', w') \<longrightarrow>
           (pc w' = L112 \<and> ext ev = Succeeds \<and> is_file fs' (average_path demo_env (snd (solo 22) ! 0)) \<and>
              (\<forall>q. is_file fs' q \<longrightarrow> is_file (fst (solo 22)) q \<or> q = average_path demo_env (snd (solo 22) ! 0))) \<or>
           (fs' = fst (solo 22) \<and> (\<exists>e. pc w' = Raised e))"
    unfolding solo_def [symmetric] by blast
  with st e(5) have b: "is_file (fst (wstep demo_env ok (fst (solo 22)) (snd (solo 22) ! 0)))
     (average_path demo_env (snd (solo 22) ! 0))"
    by fastforce
  from fixed_volume_chaining [OF h, of "replicate 23 (0, ok)" demo_fs 1] m(3) e(6)
  have c: "is_file (fst (solo 23)) (avg_dir demo_env @ [stages demo_env ! idx (snd (solo 23) ! 0) @ ''.nrrd''])"
    unfolding solo_def [symmetric] by blast
  from h e a b c show ?thesis by blast
qed


section \<open>The barrier before the average\<close>

lemma all_spec_done_iff:
  "all_spec_done fs ds \<longleftrightarrow> (\<forall>p\<in>set ds. is_dir fs p \<longrightarrow> is_file fs (p @ [''spec_done'']))"
  by (induction ds) auto

lemma check_stage_done_True:
  assumes "check_stage_done fs d = Inr True" "is_dir fs (d @ [n])"
  shows "is_file fs (d @ [n, ''spec_done''])"
proof -
  from assms(1) obtain ds where ds: "iterdir fs d = Inr ds" and a: "all_spec_done fs ds"
    by (auto simp: check_stage_done_def split: sum.splits)
  from assms(2) have "d @ [n] \<in> {d @ [n] | n. is_dir fs (d @ [n])}" by blast
  then have "d @ [n] \<in> {p \<in> set ds. is_dir fs p}" by (simp only: iterdir_subdirs [OF ds])
  with a show ?thesis by (auto simp: all_spec_done_iff)
qed

lemma not_started_Nil:
  assumes "not_started c fs d = Inr []" "s \<in> set (spec_ids c)"
  shows "is_dir fs (d @ [s])"
  using not_started_set [OF assms(1)] assms(2) by auto

lemma all_done_mono: "fs_le fs fs' \<Longrightarrow> all_done c fs d \<Longrightarrow> all_done c fs' d"
  unfolding all_done_def by (blast intro: is_file_mono)

lemma avg_ok_mono: "fs_le fs fs' \<Longrightarrow> avg_ok c fs x \<Longrightarrow> avg_ok c fs' x"
  by (cases x) (auto intro: all_done_mono)

lemma barrier_mono: "barrier c fs w \<Longrightarrow> fs_le fs fs' \<Longrightarrow> barrier c fs' w"
  unfolding barrier_def by (blast intro: all_done_mono avg_ok_mono is_dir_mono)

lemma barrier_step:
  assumes "wstep c ev fs w = (fs', w')" "barrier c fs w"
  shows "barrier c fs' w'"
proof -
  have le: "fs_le fs fs'" using assms(1) by (rule wstep_le)
  with assms(2) have b: "barrier c fs' w" by (rule barrier_mono)
  show ?thesis
  proof (cases "pc w")
    case L58
    with shape_L58 [OF assms(1)] b show ?thesis
      by (auto simp: barrier_def)
  next
    case L71
    with shape_L71 [OF assms(1)] b show ?thesis
      by (auto simp: barrier_def)
  next
    case L86
    with shape_L86 [OF assms(1)] b show ?thesis
      by (auto simp: barrier_def dest: not_started_Nil)
  next
    case L94
    with shape_L94 [OF assms(1)] b show ?thesis
      by (auto simp: barrier_def all_done_def dest: check_stage_done_True)
  next
    case L99
    with shape_L99 [OF assms(1)] b show ?thesis
      by (auto simp: barrier_def)
  next
    case L102
    with shape_L102 [OF assms(1)] b show ?thesis
      by (auto simp: barrier_def)
  next
    case L106
    with shape_L106 [OF assms(1)] b show ?thesis
      by (auto simp: barrier_def)
  next
    case L111
    with shape_L111 [OF assms(1)] b show ?thesis
      by (auto simp: barrier_def)
  next
    case L112
    with shape_L112 [OF assms(1)] b show ?thesis
      by (auto simp: barrier_def)
  next
    case L114
    with shape_L114 [OF assms(1)] b show ?thesis
      by (auto simp: barrier_def)
  next
    case L117
    with shape_L117 [OF assms(1)] b show ?thesis
      by (auto simp: barrier_def)
  next
    case L126
    with shape_L126 [OF assms(1)] b show ?thesis
      by (auto simp: barrier_def)
  next
    case L148
    with shape_L148 [OF assms(1)] b show ?thesis
      by (auto simp: barrier_def)
  next
    case L150
    with shape_L150 [OF assms(1)] b show ?thesis
      by (auto simp: barrier_def)
  next
    case Returned
    with shape_halted [OF assms(1)] b show ?thesis by (auto simp: barrier_def)
  next
    case (Raised e)
    with shape_halted [OF assms(1)] b show ?thesis by (auto simp: barrier_def)
  qed
qed

lemma barrier_init: "barrier c fs init_worker"
  by (simp add: barrier_def init_worker_def)

lemma barrier_run:
  "\<forall>w\<in>set (snd (run c sched (start fs n))). barrier c (fst (run c sched (start fs n))) w"
proof -
  have "True \<and> (\<forall>w\<in>set (snd (run c sched (fs, replicate n init_worker))).
      barrier c (fst (run c sched (fs, replicate n init_worker))) w)"
    by (rule run_invariant [where Q = "\<lambda>fs. True" and P = "barrier c"])
       (auto simp: barrier_init intro: barrier_step barrier_mono)
  then show ?thesis by (simp add: start_def)
qed

lemma snoc2_eq': "e @ [s, t] = d @ [a] \<longleftrightarrow> d = e @ [s] \<and> a = t"
  using snoc2_eq [of d a e s t] by auto

lemma new_spec_done:
  assumes "wstep c ev fs w = (fs', w')" "is_file fs' (d @ [s, ''spec_done''])"
    "\<not> is_file fs (d @ [s, ''spec_done''])"
  shows "pc w = L150 \<and> stage_dir w = d \<and> next_spec_id w = Some s"
proof -
  note n = new_file [OF assms]
  have 1: "d @ [s, ''spec_done''] \<noteq> stage_dir w @ [''avg_started'']" by (simp add: snoc2_eq')
  have 2: "d @ [s, ''spec_done''] \<noteq> average_path c w"
    using nrrd_neq(2) [of "stage_id w"] by (auto simp: average_path_def snoc2_eq')
  have 3: "d @ [s, ''spec_done''] \<noteq> elxparam_path c w"
    using txt_neq(2) [of "ELX_PARAM_PREFIX c" "stage_id w"]
    by (auto simp: elxparam_path_def snoc2_eq')
  have 4: "d @ [s, ''spec_done''] \<noteq> stage_dir w @ [s', s' @ ''.nrrd'']" for s'
    using nrrd_neq(2) [of s'] by auto
  have 5: "d @ [s, ''spec_done''] \<noteq> stage_dir w @ [''avg_done'']" by (simp add: snoc2_eq')
  from n 1 2 3 4 5 show ?thesis by auto
qed

lemma withheld_step:
  assumes "wstep c ev fs w = (fs', w')" "withheld d s fs" "held d s w"
  shows "withheld d s fs'"
proof -
  have le: "fs_le fs fs'" using assms(1) by (rule wstep_le)
  with assms(2) have "is_dir fs' (d @ [s])" by (auto simp: withheld_def intro: is_dir_mono)
  moreover have "\<not> is_file fs' (d @ [s, ''spec_done''])"
  proof
    assume "is_file fs' (d @ [s, ''spec_done''])"
    with assms(1,2) have "pc w = L150 \<and> stage_dir w = d \<and> next_spec_id w = Some s"
      by (auto simp: withheld_def dest: new_spec_done)
    with assms(3) show False by (simp add: held_def)
  qed
  ultimately show ?thesis by (simp add: withheld_def)
qed

lemma pick_not_started:
  assumes "not_started c fs d = Inr ns" "ns \<noteq> []" "is_dir fs (d @ [s])"
  shows "ns ! (k mod length ns) \<noteq> s"
proof -
  from assms(2) have "ns ! (k mod length ns) \<in> set ns" by simp
  with not_started_set [OF assms(1)] assms(3) show ?thesis by auto
qed

lemma held_step:
  assumes "wstep c ev fs w = (fs', w')" "held d s w" "withheld d s fs"
  shows "held d s w'"
proof (cases "pc w")
  case L58
  with shape_L58 [OF assms(1)] assms(2) show ?thesis
    by (auto simp: held_def avg_calls_def)
next
  case L71
  with shape_L71 [OF assms(1)] assms(2) show ?thesis
    by (auto simp: held_def avg_calls_def)
next
  case L86
  with shape_L86 [OF assms(1)] assms(2,3) show ?thesis
    by (auto simp: held_def avg_calls_def withheld_def dest: pick_not_started)
next
  case L94
  with shape_L94 [OF assms(1)] assms(2,3) show ?thesis
    by (auto simp: held_def avg_calls_def withheld_def dest: check_stage_done_True)
next
  case L99
  with shape_L99 [OF assms(1)] assms(2) show ?thesis
    by (auto simp: held_def avg_calls_def)
next
  case L102
  with shape_L102 [OF assms(1)] assms(2) show ?thesis
    by (auto simp: held_def avg_calls_def)
next
  case L106
  with shape_L106 [OF assms(1)] assms(2) show ?thesis
    by (auto simp: held_def avg_calls_def)
next
  case L111
  with shape_L111 [OF assms(1)] assms(2) show ?thesis
    by (auto simp: held_def avg_calls_def)
next
  case L112
  with shape_L112 [OF assms(1)] assms(2) show ?thesis
    by (auto simp: held_def avg_calls_def)
next
  case L114
  with shape_L114 [OF assms(1)] assms(2) show ?thesis
    by (auto simp: held_def avg_calls_def)
next
  case L117
  with shape_L117 [OF assms(1)] assms(2) show ?thesis
    by (auto simp: held_def avg_calls_def)
next
  case L126
  with shape_L126 [OF assms(1)] assms(2) show ?thesis
    by (auto simp: held_def avg_calls_def)
next
  case L148
  with shape_L148 [OF assms(1)] assms(2) show ?thesis
    by (auto simp: held_def avg_calls_def)
next
  case L150
  with shape_L150 [OF assms(1)] assms(2) show ?thesis
    by (auto simp: held_def avg_calls_def)
next
  case Returned
  with shape_halted [OF assms(1)] assms(2) show ?thesis by (auto simp: held_def avg_calls_def)
next
  case (Raised e)
  with shape_halted [OF assms(1)] assms(2) show ?thesis by (auto simp: held_def avg_calls_def)
qed

lemma held_init: "held d s init_worker"
  by (simp add: held_def init_worker_def avg_calls_def)

lemma held_run:
  assumes "withheld d s fs"
  shows "withheld d s (fst (run c sched (start fs n))) \<and>
     (\<forall>w\<in>set (snd (run c sched (start fs n))). held d s w)"
proof -
  have "withheld d s (fst (run c sched (fs, replicate n init_worker))) \<and>
     (\<forall>w\<in>set (snd (run c sched (fs, replicate n init_worker))).
        (\<lambda>fs w. held d s w) (fst (run c sched (fs, replicate n init_worker))) w)"
  proof (rule run_invariant [where Q = "withheld d s" and P = "\<lambda>fs w. held d s w"])
    fix ev fs w fs' w'
    assume "withheld d s fs" "held d s w" "wstep c ev fs w = (fs', w')"
    then show "withheld d s fs' \<and> held d s w'"
      by (blast intro: withheld_step held_step)
  next
    fix fs fs' :: fs and w assume "held d s w"
    then show "held d s w" .
  next
    show "withheld d s fs" by (rule assms)
  next
    show "\<forall>w\<in>set (replicate n init_worker). held d s w" by (simp add: held_init)
  qed
  then show ?thesis by (simp add: start_def)
qed

lemma held_elected: "held d s w \<Longrightarrow> elected d w = 0"
  by (auto simp: held_def elected_def)

lemma withheld_no_builder:
  assumes "withheld d s fs"
  shows "elected_total d (run c sched (start fs n)) = 0"
proof -
  from held_run [OF assms] have "\<forall>w\<in>set (snd (run c sched (start fs n))). elected d w = 0"
    by (blast intro: held_elected)
  then show ?thesis by (simp add: elected_total_def)
qed

text \<open>
  Claim C2.  In every state of every interleaving of workers started fresh: a worker
  that stands in the election or in the builder branch (lines 99 to 112) works in a stage
  directory in which every specimen has its \<open>spec_done\<close> file, and so does every stage
  directory on which \<open>make_avg\<close> has been called.  The barrier poll of line 94 lets a
  worker pass only when every subdirectory of the stage directory holds a \<open>spec_done\<close>
  file.  And when the stage directory \<open>d\<close> has a specimen directory whose marker is
  withheld, no worker ever gets past the barrier of \<open>d\<close>, none enters the builder branch
  or calls \<open>make_avg\<close> on \<open>d\<close>, and the marker stays absent.
\<close>

theorem average_only_after_barrier:
  "(\<forall>w\<in>set (snd (run c sched (start fs0 n))).
      (after_barrier (pc w) \<longrightarrow> all_done c (fst (run c sched (start fs0 n))) (stage_dir w)) \<and>
      (\<forall>x\<in>set (calls w). avg_ok c (fst (run c sched (start fs0 n))) x)) \<and>
   (pc w = L94 \<and> wstep c ev fs w = (fs', w') \<and> pc w' = L99 \<longrightarrow>
      (\<forall>x. is_dir fs (stage_dir w @ [x]) \<longrightarrow> is_file fs (stage_dir w @ [x, ''spec_done'']))) \<and>
   (withheld d s fs0 \<longrightarrow>
      elected_total d (run c sched (start fs0 n)) = 0 \<and>
      withheld d s (fst (run c sched (start fs0 n))) \<and>
      (\<forall>w\<in>set (snd (run c sched (start fs0 n))). stage_dir w = d \<longrightarrow> \<not> past_barrier (pc w)))"
proof (intro conjI)
  show "\<forall>w\<in>set (snd (run c sched (start fs0 n))).
      (after_barrier (pc w) \<longrightarrow> all_done c (fst (run c sched (start fs0 n))) (stage_dir w)) \<and>
      (\<forall>x\<in>set (calls w). avg_ok c (fst (run c sched (start fs0 n))) x)"
    using barrier_run [of c sched fs0 n] by (simp add: barrier_def)
next
  show "pc w = L94 \<and> wstep c ev fs w = (fs', w') \<and> pc w' = L99 \<longrightarrow>
      (\<forall>x. is_dir fs (stage_dir w @ [x]) \<longrightarrow> is_file fs (stage_dir w @ [x, ''spec_done'']))"
  proof (intro impI allI)
    fix x
    assume a: "pc w = L94 \<and> wstep c ev fs w = (fs', w') \<and> pc w' = L99"
      and d: "is_dir fs (stage_dir w @ [x])"
    from a have "wstep c ev fs w = (fs', w')" "pc w = L94" "pc w' = L99" by simp_all
    from shape_L94 [OF this(1,2)] this(3) have "check_stage_done fs (stage_dir w) = Inr True"
      by auto
    then show "is_file fs (stage_dir w @ [x, ''spec_done''])"
      using d by (rule check_stage_done_True)
  qed
next
  show "withheld d s fs0 \<longrightarrow>
      elected_total d (run c sched (start fs0 n)) = 0 \<and>
      withheld d s (fst (run c sched (start fs0 n))) \<and>
      (\<forall>w\<in>set (snd (run c sched (start fs0 n))). stage_dir w = d \<longrightarrow> \<not> past_barrier (pc w))"
  proof
    assume h: "withheld d s fs0"
    from held_run [OF h, of c sched n] withheld_no_builder [OF h, of c sched n]
    show "elected_total d (run c sched (start fs0 n)) = 0 \<and>
      withheld d s (fst (run c sched (start fs0 n))) \<and>
      (\<forall>w\<in>set (snd (run c sched (start fs0 n))). stage_dir w = d \<longrightarrow> \<not> past_barrier (pc w))"
      by (simp add: held_def)
  qed
qed

theorem average_only_after_barrier_witness:
  "after_barrier (pc (snd (solo 22) ! 0)) \<and> pc (snd (solo 22) ! 0) = L111 \<and>
   all_done demo_env (fst (solo 22)) (stage_dir (snd (solo 22) ! 0)) \<and>
   pc (snd (solo 18) ! 0) = L94 \<and>
   pc (snd (wstep demo_env ok (fst (solo 18)) (snd (solo 18) ! 0))) = L99 \<and>
   is_dir (fst (solo 18)) (stage_dir (snd (solo 18) ! 0) @ [''c'']) \<and>
   is_file (fst (solo 18)) (stage_dir (snd (solo 18) ! 0) @ [''c'', ''spec_done'']) \<and>
   withheld [''out'', ''s0''] ''c'' withheld_fs \<and>
   elected_total [''out'', ''s0''] polling = 0 \<and>
   withheld [''out'', ''s0''] ''c'' (fst polling) \<and>
   map pc (snd polling) = [L94, L94]"
proof -
  have e: "after_barrier (pc (snd (solo 22) ! 0))" "pc (snd (solo 22) ! 0) = L111"
    "pc (snd (solo 18) ! 0) = L94"
    "pc (snd (wstep demo_env ok (fst (solo 18)) (snd (solo 18) ! 0))) = L99"
    "is_dir (fst (solo 18)) (stage_dir (snd (solo 18) ! 0) @ [''c''])"
    "withheld [''out'', ''s0''] ''c'' withheld_fs"
    "map pc (snd polling) = [L94, L94]"
    by code_simp+
  have m: "snd (solo 22) ! 0 \<in> set (snd (solo 22))"
    by (simp add: solo_def start_def length_run)
  obtain fs' w' where st: "wstep demo_env ok (fst (solo 18)) (snd (solo 18) ! 0) = (fs', w')"
    by (cases "wstep demo_env ok (fst (solo 18)) (snd (solo 18) ! 0)")
  from average_only_after_barrier [of demo_env "replicate 22 (0, ok)" demo_fs 1] m e(1)
  have a: "all_done demo_env (fst (solo 22)) (stage_dir (snd (solo 22) ! 0))"
    unfolding solo_def [symmetric] by blast
  from average_only_after_barrier [of demo_env "[]" demo_fs 0 "snd (solo 18) ! 0" ok
      "fst (solo 18)" fs' w'] st e(3,4,5)
  have b: "is_file (fst (solo 18)) (stage_dir (snd (solo 18) ! 0) @ [''c'', ''spec_done''])"
    by simp
  from average_only_after_barrier [of demo_env
      "replicate 20 (0, ok) @ replicate 20 (1, ok)" withheld_fs 2 _ _ _ _ _ "[''out'', ''s0'']" "''c''"]
    e(6)
  have c: "elected_total [''out'', ''s0''] polling = 0 \<and> withheld [''out'', ''s0''] ''c'' (fst polling)"
    unfolding polling_def [symmetric] by blast
  from e a b c show ?thesis by blast
qed

section \<open>After a failed registration\<close>








section \<open>Resuming a stage\<close>

lemma lookup_app:
  "lookup (fs @ es) q = (case lookup fs q of Some v \<Rightarrow> Some v | None \<Rightarrow> map_of es q)"
  by (auto simp: lookup_def map_add_def split: option.splits)

lemma spec_stage_dirs_set:
  assumes "iterdir fs d = Inr ds"
  shows "set (spec_stage_dirs fs ds) = {n. is_dir fs (d @ [n])}"
proof -
  have "set (spec_stage_dirs fs ds) = last ` {p \<in> set ds. is_dir fs p}"
    by (simp add: spec_stage_dirs_def)
  also have "\<dots> = last ` {d @ [n] | n. is_dir fs (d @ [n])}"
    by (simp only: iterdir_subdirs [OF assms])
  also have "\<dots> = {n. is_dir fs (d @ [n])}"
    by force
  finally show ?thesis .
qed

lemma not_started_eq:
  assumes "is_dir fs d"
  shows "not_started c fs d = Inr (filter (\<lambda>s. \<not> is_dir fs (d @ [s])) (remdups (spec_ids c)))"
proof -
  from assms obtain ds where ds: "iterdir fs d = Inr ds"
    using iterdir_Inr_iff by blast
  then show ?thesis
    by (simp add: not_started_def spec_stage_dirs_set [OF ds])
qed

lemma check_stage_done_eq:
  assumes "is_dir fs d"
  shows "check_stage_done fs d =
     Inr (\<forall>x. is_dir fs (d @ [x]) \<longrightarrow> is_file fs (d @ [x, ''spec_done'']))"
proof -
  from assms obtain ds where ds: "iterdir fs d = Inr ds"
    using iterdir_Inr_iff by blast
  have "all_spec_done fs ds \<longleftrightarrow> (\<forall>p\<in>{p \<in> set ds. is_dir fs p}. is_file fs (p @ [''spec_done'']))"
    by (auto simp: all_spec_done_iff)
  also have "\<dots> \<longleftrightarrow> (\<forall>p\<in>{d @ [n] | n. is_dir fs (d @ [n])}. is_file fs (p @ [''spec_done'']))"
    by (simp only: iterdir_subdirs [OF ds])
  also have "\<dots> \<longleftrightarrow> (\<forall>x. is_dir fs (d @ [x]) \<longrightarrow> is_file fs (d @ [x, ''spec_done'']))"
    by auto
  finally show ?thesis using ds by (simp add: check_stage_done_def)
qed

lemma mk_chain_existing: "\<forall>q\<in>set qs. is_dir fs q \<Longrightarrow> mk_chain fs qs = Inr fs"
  by (induction qs) (auto simp: is_dir_def)

lemma mkdir_parents_existing: "\<forall>k. is_dir fs (take k d) \<Longrightarrow> mkdir_parents fs d = Inr fs"
  unfolding mkdir_parents_def by (rule mk_chain_existing) auto

lemma make_avg_ok:
  assumes "is_dir fs d" "is_dir fs (butlast out)" "lookup fs out = None"
  shows "make_avg Succeeds fs d out = Inr (fs @ [(out, File)])"
proof -
  from assms(1) obtain ds where "iterdir fs d = Inr ds"
    using iterdir_Inr_iff by blast
  with assms(2,3) show ?thesis
    by (simp add: make_avg_def make_avg_paths_def write_file_def)
qed

lemma registrator_run_ok:
  assumes "lookup fs (d @ [s]) = None" "is_dir fs d" "lookup fs (d @ [s, s @ ''.nrrd'']) = None"
  shows "registrator_run Succeeds fs d s =
     (fs @ [(d @ [s], Dir), (d @ [s, s @ ''.nrrd''], File)], None)"
proof -
  have b: "butlast (d @ [s, s @ ''.nrrd'']) = d @ [s]" by (simp add: butlast_append)
  have m: "mkdir fs (d @ [s]) = Inr (fs @ [(d @ [s], Dir)])"
    using assms(1,2) by (simp add: mkdir_def)
  have n: "d @ [s, s @ ''.nrrd''] \<noteq> d @ [s]" by simp
  have "write_file (fs @ [(d @ [s], Dir)]) (d @ [s, s @ ''.nrrd'']) =
      Inr ((fs @ [(d @ [s], Dir)]) @ [(d @ [s, s @ ''.nrrd''], File)])"
    using assms(1,3) n by (simp add: write_file_def b is_dir_def lookup_append)
  with m show ?thesis by (simp add: registrator_run_def)
qed

lemma nrrd_started: "x @ ''.nrrd'' \<noteq> ''avg_started''"
proof
  assume "x @ ''.nrrd'' = ''avg_started''"
  then have "rev (x @ ''.nrrd'') = rev ''avg_started''" by (rule arg_cong)
  then show False by simp
qed

lemma run_solo_step:
  assumes "wstep c e fs w = (fs', w')"
  shows "run c ((0, e) # rest) (fs, [w]) = run c rest (fs', [w'])"
  using assms by (simp add: run_def sys_step_def)

lemma seeded_not_started:
  assumes "seeded c fs d s1 s2 s3"
  shows "not_started c fs d = Inr [s3]"
proof -
  from assms have anc: "\<forall>k. is_dir fs (take k d)"
    and f: "spec_ids c = [s1, s2, s3]" "s1 \<noteq> s2" "s1 \<noteq> s3" "s2 \<noteq> s3"
      "is_dir fs (d @ [s1])" "is_dir fs (d @ [s2])" "lookup fs (d @ [s3]) = None"
    by (auto simp: seeded_def present_def)
  from anc have d: "is_dir fs d" by (metis take_all order_refl)
  from f show ?thesis by (simp add: not_started_eq [OF d] is_dir_def)
qed

lemma resume_steps:
  assumes s: "seeded c fs d s1 s2 s3"
    and g: "\<forall>k. ext (ev k) = Succeeds \<and> fault (ev k) = None"
  shows "run c [(0, ev 0), (0, ev 1), (0, ev 2), (0, ev 3), (0, ev 4), (0, ev 5), (0, ev 6),
           (0, ev 7), (0, ev 8), (0, ev 9), (0, ev 10), (0, ev 11), (0, ev 12), (0, ev 13)]
           (fs, [init_worker]) = (resumed_fs c fs d s3, [resumed_worker c d s3])"
proof -
  let ?sid = "stages c ! 0"
  let ?m = "inputs_dir c @ [s3 @ ''.nrrd'']"
  let ?out = "avg_dir c @ [?sid @ ''.nrrd'']"
  let ?P1 = "d @ [s3]" and ?P2 = "d @ [s3, s3 @ ''.nrrd'']" and ?P3 = "d @ [s3, ''spec_done'']"
  let ?P4 = "d @ [''avg_started'']" and ?P6 = "d @ [''avg_done'']"
  let ?fsA = "fs @ [(?P1, Dir), (?P2, File)]"
  let ?fsB = "fs @ [(?P1, Dir), (?P2, File), (?P3, File)]"
  let ?fsC = "fs @ [(?P1, Dir), (?P2, File), (?P3, File), (?P4, File)]"
  let ?fsD = "fs @ [(?P1, Dir), (?P2, File), (?P3, File), (?P4, File), (?out, File)]"
  let ?w1 = "init_worker\<lparr>pc := L71, idx := 0, fixed_vol := fixed_volume c\<rparr>"
  let ?w2 = "?w1\<lparr>pc := L86, stage_id := ?sid, stage_dir := d\<rparr>"
  let ?w3 = "?w2\<lparr>pc := L117, next_spec_id := Some s3\<rparr>"
  let ?w4 = "?w3\<lparr>pc := L126, moving := ?m\<rparr>"
  let ?w5 = "?w4\<lparr>pc := L148\<rparr>"
  let ?w6 = "?w5\<lparr>calls := [RegCall 0 s3 ?m (fixed_volume c)], pc := L150\<rparr>"
  let ?w7 = "?w6\<lparr>pc := L86\<rparr>"
  let ?w8 = "?w6\<lparr>pc := L94\<rparr>"
  let ?w9 = "?w6\<lparr>pc := L99\<rparr>"
  let ?w10 = "?w6\<lparr>pc := L102\<rparr>"
  let ?w11 = "?w6\<lparr>pc := L106\<rparr>"
  let ?w12 = "?w6\<lparr>pc := L111\<rparr>"
  let ?w13 = "?w6\<lparr>calls := [RegCall 0 s3 ?m (fixed_volume c), AvgCall d ?out], pc := L112\<rparr>"
  from s have st: "stages c \<noteq> []" "map_of (stage_dirs c) ?sid = Some d"
    and elx: "map_of (elastix_stage_parameters c) ?sid \<noteq> None"
      "is_file fs (d @ [ELX_PARAM_PREFIX c @ ?sid @ ''.txt''])"
    and ids: "spec_ids c = [s1, s2, s3]" "s1 \<noteq> s2" "s1 \<noteq> s3" "s2 \<noteq> s3"
    and av: "is_dir fs (avg_dir c)" "avg_dir c \<noteq> d"
    and anc: "\<forall>k. is_dir fs (take k d)"
    and dirs: "is_dir fs (d @ [s1])" "is_dir fs (d @ [s2])"
    and alld: "\<forall>x. is_dir fs (d @ [x]) \<longrightarrow> is_file fs (d @ [x, ''spec_done''])"
    and ab: "lookup fs ?P1 = None" "lookup fs ?P2 = None" "lookup fs ?P3 = None"
      "lookup fs ?P4 = None" "lookup fs ?P6 = None" "lookup fs ?out = None"
    and ne: "s3 \<noteq> ''avg_started''" "s3 \<noteq> ''avg_done''"
    by (auto simp: seeded_def present_def)
  from anc have d: "is_dir fs d" by (metis take_all order_refl)
  from g have ok: "ext (ev k) = Succeeds" "fault (ev k) = None" for k by simp_all
  have dl: "lookup fs d = Some Dir" using d by (simp add: is_dir_def)
  have dirA: "is_dir (fs @ es) d" for es
    using dl by (simp add: is_dir_def lookup_app)
  have o1: "?out \<noteq> ?P1" using av(2) by auto
  have o2: "?out \<noteq> ?P2"
  proof
    assume "?out = ?P2"
    then have "avg_dir c = d @ [s3]" by (simp add: snoc2_eq)
    with av(1) ab(1) show False by (simp add: is_dir_def)
  qed
  have o3: "?out \<noteq> ?P3" using nrrd_neq(2) [of ?sid] by (auto simp: snoc2_eq)
  have o4: "?out \<noteq> ?P4" using nrrd_started [of ?sid] by auto
  have o6: "?out \<noteq> ?P6" using nrrd_neq(1) [of ?sid] by auto
  have 1: "wstep c (ev 0) fs init_worker = (fs, ?w1)"
    using av(1) by (simp add: wstep_def step_L58_def init_worker_def mkdir_def is_dir_def)
  have 2: "wstep c (ev 1) fs ?w1 = (fs, ?w2)"
    using st anc by (simp add: wstep_def step_L71_def mkdir_parents_existing)
  have ns: "not_started c fs d = Inr [s3]"
    using ids dirs ab(1) by (simp add: not_started_eq [OF d] is_dir_def)
  have 3: "wstep c (ev 2) fs ?w2 = (fs, ?w3)"
    using ns by (simp add: wstep_def step_L86_def)
  have 4: "wstep c (ev 3) fs ?w3 = (fs, ?w4)"
    by (simp add: wstep_def step_L117_def)
  have 5: "wstep c (ev 4) fs ?w4 = (fs, ?w5)"
    using elx by (auto simp: wstep_def step_L126_def elxparam_path_def)
  have 6: "wstep c (ev 5) fs ?w5 = (?fsA, ?w6)"
    using ok registrator_run_ok [OF ab(1) d ab(2)]
    by (simp add: wstep_def step_L148_def init_worker_def)
  have b3: "butlast ?P3 = ?P1" by (simp add: butlast_append)
  have 7: "wstep c (ev 6) ?fsA ?w6 = (?fsB, ?w7)"
    using ok ab(1,3) by (simp add: wstep_def step_L150_def open_x_def present_def is_dir_def
        lookup_app b3)
  have nsB: "not_started c ?fsB d = Inr []"
    using ids dirs ab(1) by (simp add: not_started_eq [OF dirA] is_dir_def lookup_app)
  have 8: "wstep c (ev 7) ?fsB ?w7 = (?fsB, ?w8)"
    using nsB by (simp add: wstep_def step_L86_def)
  have "is_dir ?fsB (d @ [x]) \<longrightarrow> is_file ?fsB (d @ [x, ''spec_done''])" for x
    using alld ab(1,3) by (auto simp: is_dir_def is_file_def lookup_app split: option.splits)
  then have ck: "check_stage_done ?fsB d = Inr True"
    by (simp add: check_stage_done_eq [OF dirA])
  have 9: "wstep c (ev 8) ?fsB ?w8 = (?fsB, ?w9)"
    using ck by (simp add: wstep_def step_L94_def)
  have 10: "wstep c (ev 9) ?fsB ?w9 = (?fsB, ?w10)"
    using ab(5) ne by (simp add: wstep_def step_L99_def is_file_def lookup_app snoc2_eq)
  have 11: "wstep c (ev 10) ?fsB ?w10 = (?fsB, ?w11)"
    using ab(4) ne by (simp add: wstep_def step_L102_def is_file_def lookup_app snoc2_eq)
  have 12: "wstep c (ev 11) ?fsB ?w11 = (?fsC, ?w12)"
    using ok ab(4) ne dl
    by (simp add: wstep_def step_L106_def open_x_def present_def is_dir_def lookup_app snoc2_eq)
  have "lookup ?fsC ?out = None"
    using ab(6) o1 o2 o3 o4 by (simp add: lookup_app)
  moreover have "is_dir ?fsC (butlast ?out)"
    using av(1) by (simp add: is_dir_def lookup_app butlast_append)
  ultimately have "make_avg Succeeds ?fsC d ?out = Inr (?fsC @ [(?out, File)])"
    using dirA by (intro make_avg_ok)
  then have 13: "wstep c (ev 12) ?fsC ?w12 = (?fsD, ?w13)"
    using ok by (simp add: wstep_def step_L111_def average_path_def)
  have 14: "wstep c (ev 13) ?fsD ?w13 = (resumed_fs c fs d s3, resumed_worker c d s3)"
    using ok ab(5) ne dl o6
    by (simp add: wstep_def step_L112_def open_x_def present_def is_dir_def lookup_app snoc2_eq
        resumed_fs_def resumed_worker_def init_worker_def)
  show ?thesis
    by (simp only: run_solo_step [OF 1] run_solo_step [OF 2] run_solo_step [OF 3]
        run_solo_step [OF 4] run_solo_step [OF 5] run_solo_step [OF 6] run_solo_step [OF 7]
        run_solo_step [OF 8] run_solo_step [OF 9] run_solo_step [OF 10] run_solo_step [OF 11]
        run_solo_step [OF 12] run_solo_step [OF 13] run_solo_step [OF 14])
       (simp add: run_def)
qed

lemma upt_14: "[0..<14] = [0, 1, 2, 3, 4, 5, 6, 7, 8, 9, 10, 11, 12, 13]"
  by code_simp

lemma solo_sched:
  assumes "length sched = 14" "\<forall>ke\<in>set sched. fst ke = 0"
  shows "sched = map (\<lambda>k. (0, snd (sched ! k))) [0..<14]"
proof (rule nth_equalityI)
  show "length sched = length (map (\<lambda>k. (0, snd (sched ! k))) [0..<14])"
    using assms(1) by simp
next
  fix i assume i: "i < length sched"
  with assms(2) have "fst (sched ! i) = 0" by simp
  then have "sched ! i = (0, snd (sched ! i))" by (metis prod.collapse)
  with i assms(1) show "sched ! i = map (\<lambda>k. (0, snd (sched ! k))) [0..<14] ! i"
    by simp
qed

text \<open>
  Claim C6.  Let the first stage be in the state \<open>seeded\<close>: two of the three specimens
  have their directory and completion marker, the third has nothing, and no election
  marker exists.  The specimens not started are then the third one alone, and a single
  fresh worker whose registration and averaging succeed then
  leaves the stage after 14 steps, whatever the environment picks: it has registered
  the third specimen and no other, created its completion marker, called \<open>make_avg\<close>
  once, and created \<open>avg_started\<close>, the average and \<open>avg_done\<close>; all three specimens
  have their markers.
\<close>

theorem resumed_worker_finishes_stage:
  assumes "seeded c fs d s1 s2 s3" "length sched = 14"
    and "\<forall>ke\<in>set sched. fst ke = 0 \<and> ext (snd ke) = Succeeds \<and> fault (snd ke) = None"
  shows "run c sched (start fs 1) = (resumed_fs c fs d s3, [resumed_worker c d s3]) \<and>
     not_started c fs d = Inr [s3] \<and>
     map calls (snd (run c sched (start fs 1))) =
       [[RegCall 0 s3 (inputs_dir c @ [s3 @ ''.nrrd'']) (fixed_volume c),
         AvgCall d (avg_dir c @ [stages c ! 0 @ ''.nrrd''])]] \<and>
     map pc (snd (run c sched (start fs 1))) = [L71] \<and>
     map idx (snd (run c sched (start fs 1))) = [1] \<and>
     all_done c (fst (run c sched (start fs 1))) d \<and>
     is_file (fst (run c sched (start fs 1))) (d @ [''avg_done'']) \<and>
     is_file (fst (run c sched (start fs 1))) (avg_dir c @ [stages c ! 0 @ ''.nrrd''])"
proof -
  define ev where "ev k = (if k < 14 then snd (sched ! k) else snd (sched ! 0))" for k
  have g: "\<forall>k. ext (ev k) = Succeeds \<and> fault (ev k) = None"
    using assms(2,3) by (auto simp: ev_def)
  from assms(2,3) have "sched = map (\<lambda>k. (0, snd (sched ! k))) [0..<14]"
    by (intro solo_sched) auto
  also have "\<dots> = map (\<lambda>k. (0, ev k)) [0..<14]"
    by (simp add: ev_def)
  finally have sc: "sched = [(0, ev 0), (0, ev 1), (0, ev 2), (0, ev 3), (0, ev 4), (0, ev 5),
      (0, ev 6), (0, ev 7), (0, ev 8), (0, ev 9), (0, ev 10), (0, ev 11), (0, ev 12), (0, ev 13)]"
    by (simp only: upt_14 list.map)
  have r: "run c sched (start fs 1) = (resumed_fs c fs d s3, [resumed_worker c d s3])"
    unfolding start_def using resume_steps [OF assms(1) g] by (simp add: sc)
  from assms(1) have ids: "spec_ids c = [s1, s2, s3]"
    and dirs: "is_dir fs (d @ [s1])" "is_dir fs (d @ [s2])"
    and alld: "\<forall>x. is_dir fs (d @ [x]) \<longrightarrow> is_file fs (d @ [x, ''spec_done''])"
    by (auto simp: seeded_def)
  from assms(1) have n3: "lookup fs (d @ [s3, ''spec_done'']) = None"
    by (simp add: seeded_def present_def)
  from dirs alld have "is_file fs (d @ [s1, ''spec_done''])" "is_file fs (d @ [s2, ''spec_done''])"
    by simp_all
  then have a: "all_done c (resumed_fs c fs d s3) d"
    using ids n3 by (auto simp: all_done_def resumed_fs_def is_file_def lookup_app split: option.splits)
  have o6: "avg_dir c @ [stages c ! 0 @ ''.nrrd''] \<noteq> d @ [''avg_done'']"
    using nrrd_neq(1) [of "stages c ! 0"] by auto
  from assms(1) have "lookup fs (d @ [''avg_done'']) = None"
    "lookup fs (avg_dir c @ [stages c ! 0 @ ''.nrrd'']) = None"
    "s3 \<noteq> ''avg_done''" "s3 \<noteq> ''avg_started''" "avg_dir c \<noteq> d" "lookup fs (d @ [s3]) = None"
    "is_dir fs (avg_dir c)"
    by (auto simp: seeded_def present_def)
  then have f: "is_file (resumed_fs c fs d s3) (d @ [''avg_done''])"
    "is_file (resumed_fs c fs d s3) (avg_dir c @ [stages c ! 0 @ ''.nrrd''])"
    using o6 nrrd_neq(2) [of "stages c ! 0"] nrrd_started [of "stages c ! 0"]
    by (auto simp: resumed_fs_def is_file_def is_dir_def lookup_app snoc2_eq)
  from r a f seeded_not_started [OF assms(1)] show ?thesis by (simp add: resumed_worker_def)
qed

theorem resumed_worker_finishes_stage_witness:
  "seeded demo_env seeded_fs [''out'', ''s0''] ''a'' ''b'' ''c'' \<and>
   length (replicate 14 (0 :: nat, ok)) = 14 \<and>
   not_started demo_env seeded_fs [''out'', ''s0''] = Inr [''c''] \<and>
   map calls (snd (run demo_env (replicate 14 (0, ok)) (start seeded_fs 1))) =
       [[RegCall 0 ''c'' [''in'', ''c.nrrd''] [''fixed.nrrd''],
         AvgCall [''out'', ''s0''] [''out'', ''averages'', ''s0.nrrd'']]] \<and>
   map pc (snd (run demo_env (replicate 14 (0, ok)) (start seeded_fs 1))) = [L71] \<and>
   all_done demo_env (fst (run demo_env (replicate 14 (0, ok)) (start seeded_fs 1))) [''out'', ''s0''] \<and>
   is_file (fst (run demo_env (replicate 14 (0, ok)) (start seeded_fs 1))) [''out'', ''s0'', ''avg_done'']"
proof -
  have s: "seeded demo_env seeded_fs [''out'', ''s0''] ''a'' ''b'' ''c''"
    by (simp add: seeded_def demo_env_def seeded_fs_def avg_dir_def is_dir_def is_file_def
        present_def lookup_def take_Cons')
  have g: "\<forall>ke\<in>set (replicate 14 (0 :: nat, ok)). fst ke = 0 \<and> ext (snd ke) = Succeeds \<and> fault (snd ke) = None"
    by (simp add: ok_def)
  have e: "inputs_dir demo_env = [''in'']" "fixed_volume demo_env = [''fixed.nrrd'']"
    "avg_dir demo_env = [''out'', ''averages'']" "stages demo_env ! 0 = ''s0''"
    by (simp_all add: demo_env_def avg_dir_def)
  from resumed_worker_finishes_stage [OF s length_replicate g, THEN conjunct2] e s show ?thesis
    by simp
qed

end
